theory Spec2Isabelle
  imports Main "HOL-Library.Word" "HOL-Library.Sublist" "HOL-Library.Multiset"
begin

section \<open>Data model (gosml.go, msg\_getlistresponse.go)\<close>

type_synonym byte = "8 word"

text \<open>\<^verbatim>\<open>type OctetString []byte\<close>. Only the contents and the length of a slice are
  observed by the code below, so a nil slice and an empty slice are both \<open>[]\<close>.\<close>

type_synonym OctetString = "byte list"

record Value =
  Typ :: byte
  DataBytes :: OctetString
  DataBoolean :: bool
  DataInt :: "64 word"

record ListEntry =
  ObjName :: OctetString
  status :: "64 word"
  valTime :: "32 word"
  Unit :: byte
  scaler :: byte
  Value :: Value
  ValueSignature :: OctetString

record GetListResponse =
  ClientID :: OctetString
  ServerID :: OctetString
  ListName :: OctetString
  ActSensorTime :: "32 word"
  ValList :: "ListEntry list"
  ListSignature :: OctetString
  ActGatewayTime :: "32 word"

text \<open>Go's error values, compared by identity in the source: the two sentinels of package
  \<open>io\<close> that the code can meet, \<open>io.ErrNoProgress\<close> of \<open>bufio\<close>, the two sentinels of
  this package, the value made by \<open>errors.New("parse panic")\<close> in \<open>Read\<close>, and two
  families standing for every other error of the byte source and of the TLV layer.\<close>

datatype error =
  EOF | ErrUnexpectedEOF | ErrNoProgress
  | ErrSequenceTooLong | ErrUnrecognizedSequence
  | ErrParsePanic | IoError nat | ParseError nat

text \<open>A run-time panic. The only panics the modelled code can raise itself are index
  errors; \<open>ParserPanic\<close> stands for a panic inside the TLV layer.\<close>

datatype panic = IndexOutOfRange | ParserPanic

text \<open>Go's \<open>s[i]\<close>: a panic when \<open>i\<close> is not below the length.\<close>

definition index :: "'a list \<Rightarrow> nat \<Rightarrow> panic + 'a" where
  "index xs i = (if i < length xs then Inr (xs ! i) else Inl IndexOutOfRange)"

section \<open>The OBIS dispatch tree\<close>

text \<open>\<^verbatim>\<open>type obisGroupCallback struct { callbacks []func(*ListEntry);
  childGroups map[byte]*obisGroupCallback }\<close>. A callback is an opaque value of type
  \<open>'c\<close>; firing it is recorded in a trace. Every node is owned by exactly one parent,
  so updating a child in place is the functional update of the map.\<close>

datatype 'c obisGroupCallback =
  Group (callbacks: "'c list") (childGroups: "byte \<Rightarrow> 'c obisGroupCallback option")

definition newObisGroupCallback :: "'c obisGroupCallback" where
  "newObisGroupCallback = Group [] (\<lambda>_. None)"

fun addCallback :: "'c obisGroupCallback \<Rightarrow> OctetString \<Rightarrow> 'c \<Rightarrow> 'c obisGroupCallback" where
  "addCallback (Group cbs ch) [] cb = Group (cbs @ [cb]) ch"
| "addCallback (Group cbs ch) (b # subCode) cb =
     (let subGroupCallback = (case ch b of None \<Rightarrow> newObisGroupCallback | Some g \<Rightarrow> g)
      in Group cbs (ch(b \<mapsto> addCallback subGroupCallback subCode cb)))"

text \<open>\<open>call\<close> returns the callbacks it fired, in the order it fired them, and the panic
  that stopped it, if any. The test \<open>length obisCode = 0\<close> is the source's bounds check;
  \<open>obisCode[0]\<close> and \<open>obisCode[1:]\<close> come after it.\<close>

function call :: "'c obisGroupCallback \<Rightarrow> OctetString \<Rightarrow> 'c list \<times> panic option" where
  "call oc obisCode =
     (if length obisCode = 0 then (callbacks oc, None)
      else (case index obisCode 0 of
              Inl p \<Rightarrow> (callbacks oc, Some p)
            | Inr b \<Rightarrow>
                (case childGroups oc b of
                   None \<Rightarrow> (callbacks oc, None)
                 | Some subOc \<Rightarrow>
                     (case call subOc (drop 1 obisCode) of
                        (fired, p) \<Rightarrow> (callbacks oc @ fired, p)))))"
  by pat_completeness auto
termination
  by (relation "measure (\<lambda>(oc, obisCode). length obisCode)") auto

declare call.simps [simp del]

text \<open>\<^verbatim>\<open>type options struct { topLevelCallback *obisGroupCallback }\<close>; \<open>None\<close> is nil.
  Outside the package a \<open>ReadOption\<close> can only be made by \<open>WithObisCallback\<close>, so it is
  the pair of the arguments given to it.\<close>

type_synonym 'c options = "'c obisGroupCallback option"

type_synonym 'c ReadOption = "OctetString \<times> 'c"

definition WithObisCallback :: "'c ReadOption \<Rightarrow> 'c options \<Rightarrow> 'c options" where
  "WithObisCallback opt os =
     (case opt of (obisCode, callback) \<Rightarrow>
        Some (addCallback (case os of None \<Rightarrow> newObisGroupCallback | Some t \<Rightarrow> t)
                obisCode callback))"

text \<open>The first loop of \<open>Read\<close>: every option is applied to the fresh \<open>options\<close>.\<close>

definition apply_opts :: "'c ReadOption list \<Rightarrow> 'c options" where
  "apply_opts opts = foldl (\<lambda>os opt. WithObisCallback opt os) None opts"

text \<open>The tree after a sequence of registrations on a fresh root.\<close>

definition register_all :: "'c ReadOption list \<Rightarrow> 'c obisGroupCallback" where
  "register_all regs = foldl (\<lambda>t (c, cb). addCallback t c cb) newObisGroupCallback regs"

text \<open>The callbacks stored at the node reached by a path (none when the path leaves the
  tree), and the callbacks registered under exactly the code \<open>p\<close>, in registration
  order.\<close>

fun stored_at :: "'c obisGroupCallback \<Rightarrow> OctetString \<Rightarrow> 'c list" where
  "stored_at (Group cbs ch) [] = cbs"
| "stored_at (Group cbs ch) (b # p) = (case ch b of None \<Rightarrow> [] | Some g \<Rightarrow> stored_at g p)"

definition registered_at :: "'c ReadOption list \<Rightarrow> OctetString \<Rightarrow> 'c list" where
  "registered_at regs p = map snd (filter (\<lambda>r. fst r = p) regs)"

section \<open>The byte source\<close>

text \<open>\<open>Read\<close> takes a \<^verbatim>\<open>*bufio.Reader\<close> over some \<open>io.Reader\<close>. Both belong to Go's
  standard library; they are modelled from its documentation and code as far as the
  package uses them.

  The underlying \<open>io.Reader\<close> is the list of the results its \<open>Read\<close> calls will give:
  a chunk of bytes that is available (a call with a shorter destination takes the front
  of it and leaves the rest), or a failure. After the list, every call gives \<open>io.EOF\<close>.
  A chunk has at least one byte: the source never answers a call with no byte and no
  error. A call that gives bytes together with an error is the chunk followed by the
  failure, which is how \<open>bufio\<close> hands it on.\<close>

datatype event = Chunk byte "byte list" | Fail error

type_synonym source = "event list"

fun src_read :: "source \<Rightarrow> nat \<Rightarrow> byte list \<times> error option \<times> source" where
  "src_read [] k = ([], Some EOF, [])"
| "src_read (Fail e # es) k = ([], Some e, es)"
| "src_read (Chunk b bs # es) k =
     (take k (b # bs), None,
      (case drop k (b # bs) of [] \<Rightarrow> es | x # xs \<Rightarrow> Chunk x xs # es))"

text \<open>\<open>bufio.Reader\<close>: the bytes buffered and not yet handed out (\<open>b.buf[b.r:b.w]\<close>), the
  size asked for, and the underlying reader. The field \<open>b.err\<close> is nil between calls
  here, because a failure of the source comes with no bytes and is returned (and
  cleared by \<open>readErr\<close>) in the call that meets it.\<close>

record Reader =
  rbuf :: "byte list"
  rsize :: nat
  rd :: source

definition NewReaderSize :: "source \<Rightarrow> nat \<Rightarrow> Reader" where
  "NewReaderSize s sz = \<lparr>rbuf = [], rsize = sz, rd = s\<rparr>"

definition NewReader :: "source \<Rightarrow> Reader" where
  "NewReader s = NewReaderSize s 4096"

text \<open>\<open>len(b.buf)\<close>: \<open>NewReaderSize\<close> raises a size below 16 to 16.\<close>

definition buf_len :: "Reader \<Rightarrow> nat" where
  "buf_len r = max 16 (rsize r)"

text \<open>\<open>(*Reader).ReadByte\<close>. With an empty buffer it calls \<open>fill\<close>, which reads from the
  source into the whole buffer. \<open>fill\<close> retries a read that gave no byte and no error,
  and reports \<open>io.ErrNoProgress\<close> after 100 of them; a source of this model gives no
  such read, so the retry is not unfolded.\<close>

definition Reader_ReadByte :: "Reader \<Rightarrow> (error + byte) \<times> Reader" where
  "Reader_ReadByte r =
     (case rbuf r of
        c # rest \<Rightarrow> (Inr c, r\<lparr>rbuf := rest\<rparr>)
      | [] \<Rightarrow>
          (case src_read (rd r) (buf_len r) of
             (bs, Some err, s) \<Rightarrow> (Inl err, r\<lparr>rd := s\<rparr>)
           | (bs, None, s) \<Rightarrow>
               (case bs of
                  [] \<Rightarrow> (Inl ErrNoProgress, r\<lparr>rd := s\<rparr>)
                | c # rest \<Rightarrow> (Inr c, r\<lparr>rbuf := rest, rd := s\<rparr>))))"

text \<open>\<open>(*Reader).Read(p)\<close> with \<open>n = len(p)\<close>: at most one read of the source, and
  possibly fewer than \<open>n\<close> bytes. With an empty buffer, a destination at least as large
  as the buffer is read into directly.\<close>

definition Reader_Read :: "Reader \<Rightarrow> nat \<Rightarrow> byte list \<times> error option \<times> Reader" where
  "Reader_Read r n =
     (if n = 0 then ([], None, r)
      else if rbuf r = [] then
        (if buf_len r \<le> n then
           (case src_read (rd r) n of (bs, err, s) \<Rightarrow> (bs, err, r\<lparr>rd := s\<rparr>))
         else
           (case src_read (rd r) (buf_len r) of
              (bs, err, s) \<Rightarrow>
                (if length bs = 0 then ([], err, r\<lparr>rd := s\<rparr>)
                 else (take n bs, None, r\<lparr>rbuf := drop n bs, rd := s\<rparr>))))
      else (take n (rbuf r), None, r\<lparr>rbuf := drop n (rbuf r)\<rparr>))"

lemma src_read_progress:
  "src_read s k = (bs, None, s') \<Longrightarrow> 0 < k \<Longrightarrow> bs \<noteq> []"
  by (cases "(s, k)" rule: src_read.cases) auto

lemma Reader_Read_progress:
  assumes "Reader_Read r n = (bs, None, r')" and "0 < n"
  shows "bs \<noteq> []"
proof (cases "rbuf r = []")
  case False
  with assms show ?thesis by (auto simp: Reader_Read_def)
next
  case True
  show ?thesis
  proof (cases "buf_len r \<le> n")
    case True
    with assms \<open>rbuf r = []\<close> show ?thesis
      by (auto simp: Reader_Read_def split: prod.splits dest: src_read_progress)
  next
    case False
    have "0 < buf_len r" by (simp add: buf_len_def)
    with False assms \<open>rbuf r = []\<close> show ?thesis
      by (auto simp: Reader_Read_def split: prod.splits if_splits dest: src_read_progress)
  qed
qed

text \<open>\<open>io.ReadFull(r, buf)\<close> is \<open>io.ReadAtLeast(r, buf, len(buf))\<close>: it calls \<open>r.Read\<close> on
  the unfilled rest of the destination until the destination is full or a call fails.\<close>

function ReadAtLeast_loop :: "Reader \<Rightarrow> nat \<Rightarrow> byte list \<Rightarrow> byte list \<times> error option \<times> Reader" where
  "ReadAtLeast_loop r need acc =
     (if length acc < need then
        (case Reader_Read r (need - length acc) of
           (bs, None, r') \<Rightarrow> ReadAtLeast_loop r' need (acc @ bs)
         | (bs, Some err, r') \<Rightarrow> (acc @ bs, Some err, r'))
      else (acc, None, r))"
  by pat_completeness auto
termination
  apply (relation "measure (\<lambda>(r, need, acc). need - length acc)")
   apply simp
  subgoal for r need acc bs y e r'
    using Reader_Read_progress [of r "need - length acc" bs r']
    by (cases bs) auto
  done

declare ReadAtLeast_loop.simps [simp del]

definition io_ReadFull :: "Reader \<Rightarrow> nat \<Rightarrow> byte list \<times> error option \<times> Reader" where
  "io_ReadFull r n =
     (case ReadAtLeast_loop r n [] of
        (bs, err, r') \<Rightarrow>
          (if n \<le> length bs then (bs, None, r')
           else if 0 < length bs \<and> err = Some EOF then (bs, Some ErrUnexpectedEOF, r')
           else (bs, err, r')))"

text \<open>What a reader still holds: the bytes it will give before its source fails or
  ends, the error it will give then, and a size that every successful read lowers.\<close>

fun src_data :: "source \<Rightarrow> byte list" where
  "src_data [] = []"
| "src_data (Fail e # es) = []"
| "src_data (Chunk b bs # es) = b # bs @ src_data es"

fun src_pend :: "source \<Rightarrow> error" where
  "src_pend [] = EOF"
| "src_pend (Fail e # es) = e"
| "src_pend (Chunk b bs # es) = src_pend es"

fun src_weight :: "source \<Rightarrow> nat" where
  "src_weight [] = 0"
| "src_weight (Fail e # es) = Suc (src_weight es)"
| "src_weight (Chunk b bs # es) = Suc (length bs) + src_weight es"

definition avail :: "Reader \<Rightarrow> byte list" where
  "avail r = rbuf r @ src_data (rd r)"

definition pend :: "Reader \<Rightarrow> error" where
  "pend r = src_pend (rd r)"

definition weight :: "Reader \<Rightarrow> nat" where
  "weight r = length (rbuf r) + src_weight (rd r)"

lemma src_read_spec:
  assumes "0 < k" and "src_read s k = (bs, e, s')"
  shows "case e of
           None \<Rightarrow> bs \<noteq> [] \<and> length bs \<le> k \<and> src_data s = bs @ src_data s'
                   \<and> src_pend s' = src_pend s \<and> src_weight s' + length bs = src_weight s
         | Some err \<Rightarrow> bs = [] \<and> src_data s = [] \<and> err = src_pend s
                   \<and> src_weight s' \<le> src_weight s
                   \<and> (err \<noteq> EOF \<longrightarrow> src_weight s' < src_weight s)"
proof (cases "(s, k)" rule: src_read.cases)
  case (1 k')
  with assms show ?thesis by auto
next
  case (2 e' es k')
  with assms show ?thesis by auto
next
  case (3 b cs es k')
  then have s: "s = Chunk b cs # es" by simp
  define t where "t = take k (b # cs)"
  define d where "d = drop k (b # cs)"
  have split: "b # cs = t @ d" by (simp add: t_def d_def)
  have len: "Suc (length cs) = length t + length d"
    using arg_cong [OF split, of length] by simp
  have t: "t \<noteq> []" "length t \<le> k"
    using \<open>0 < k\<close> by (auto simp: t_def)
  have res: "bs = t" "e = None" "s' = (case d of [] \<Rightarrow> es | x # xs \<Rightarrow> Chunk x xs # es)"
    using assms(2) by (simp_all add: s t_def d_def)
  have "src_data s = t @ src_data s'"
    using split by (cases d) (simp_all add: s res)
  moreover have "src_pend s' = src_pend s"
    by (cases d) (simp_all add: s res)
  moreover have "src_weight s' + length t = src_weight s"
    using len by (cases d) (simp_all add: s res)
  ultimately show ?thesis using t by (simp add: res)
qed

lemma src_read_None:
  assumes "0 < k" and "src_read s k = (bs, None, s')"
  shows "bs \<noteq> []" and "length bs \<le> k" and "src_data s = bs @ src_data s'"
    and "src_pend s' = src_pend s" and "src_weight s' + length bs = src_weight s"
  using src_read_spec [OF assms] by simp_all

lemma src_read_Some:
  assumes "0 < k" and "src_read s k = (bs, Some err, s')"
  shows "bs = []" and "src_data s = []" and "err = src_pend s"
    and "src_weight s' \<le> src_weight s" and "err \<noteq> EOF \<Longrightarrow> src_weight s' < src_weight s"
  using src_read_spec [OF assms] by simp_all

lemma buf_len_pos: "0 < buf_len r"
  by (simp add: buf_len_def)

lemma Reader_ReadByte_Inr:
  assumes "Reader_ReadByte r = (Inr c, r')"
  shows "avail r = c # avail r'" and "pend r' = pend r" and "weight r' < weight r"
proof -
  show "avail r = c # avail r'"
  proof (cases "rbuf r")
    case (Cons x xs)
    with assms show ?thesis by (auto simp: Reader_ReadByte_def avail_def)
  next
    case Nil
    with assms obtain bs s where rd: "src_read (rd r) (buf_len r) = (c # bs, None, s)"
      and r': "r' = r\<lparr>rbuf := bs, rd := s\<rparr>"
      by (auto simp: Reader_ReadByte_def split: prod.splits option.splits list.splits)
    from src_read_None(3) [OF buf_len_pos rd] Nil r' show ?thesis
      by (simp add: avail_def)
  qed
  show "pend r' = pend r"
  proof (cases "rbuf r")
    case (Cons x xs)
    with assms show ?thesis by (auto simp: Reader_ReadByte_def pend_def)
  next
    case Nil
    with assms obtain bs s where rd: "src_read (rd r) (buf_len r) = (c # bs, None, s)"
      and r': "r' = r\<lparr>rbuf := bs, rd := s\<rparr>"
      by (auto simp: Reader_ReadByte_def split: prod.splits option.splits list.splits)
    from src_read_None(4) [OF buf_len_pos rd] r' show ?thesis
      by (simp add: pend_def)
  qed
  show "weight r' < weight r"
  proof (cases "rbuf r")
    case (Cons x xs)
    with assms show ?thesis by (auto simp: Reader_ReadByte_def weight_def)
  next
    case Nil
    with assms obtain bs s where rd: "src_read (rd r) (buf_len r) = (c # bs, None, s)"
      and r': "r' = r\<lparr>rbuf := bs, rd := s\<rparr>"
      by (auto simp: Reader_ReadByte_def split: prod.splits option.splits list.splits)
    from src_read_None(5) [OF buf_len_pos rd] Nil r' show ?thesis
      by (simp add: weight_def)
  qed
qed

lemma Reader_ReadByte_Inl:
  assumes "Reader_ReadByte r = (Inl err, r')"
  shows "avail r = []" and "err = pend r" and "weight r' \<le> weight r"
    and "err \<noteq> EOF \<Longrightarrow> weight r' < weight r"
proof -
  from assms have buf: "rbuf r = []"
    by (auto simp: Reader_ReadByte_def split: list.splits)
  obtain bs e s where rd: "src_read (rd r) (buf_len r) = (bs, e, s)"
    by (cases "src_read (rd r) (buf_len r)") auto
  have "e \<noteq> None"
  proof
    assume "e = None"
    with rd have "src_read (rd r) (buf_len r) = (bs, None, s)" by simp
    from src_read_None(1) [OF buf_len_pos this] have "bs \<noteq> []" .
    with assms buf rd \<open>e = None\<close> show False
      by (auto simp: Reader_ReadByte_def split: list.splits)
  qed
  then obtain e' where e: "e = Some e'" by auto
  with assms buf rd have err: "err = e'" and r': "r' = r\<lparr>rd := s\<rparr>"
    by (auto simp: Reader_ReadByte_def)
  note facts = src_read_Some [OF buf_len_pos rd [unfolded e]]
  show "avail r = []" using facts(2) buf by (simp add: avail_def)
  show "err = pend r" using facts(3) err by (simp add: pend_def)
  show "weight r' \<le> weight r" using facts(4) r' by (simp add: weight_def)
  show "weight r' < weight r" if "err \<noteq> EOF"
    using facts(5) that err r' by (simp add: weight_def)
qed

lemma Reader_Read_None:
  assumes "0 < n" and "Reader_Read r n = (bs, None, r')"
  shows "bs \<noteq> []" and "length bs \<le> n" and "avail r = bs @ avail r'"
    and "pend r' = pend r" and "weight r' \<le> weight r"
proof -
  have "bs \<noteq> [] \<and> length bs \<le> n \<and> avail r = bs @ avail r' \<and> pend r' = pend r
        \<and> weight r' \<le> weight r"
  proof (cases "rbuf r = []")
    case False
    with assms show ?thesis
      by (auto simp: Reader_Read_def avail_def pend_def weight_def)
  next
    case True
    show ?thesis
    proof (cases "buf_len r \<le> n")
      case True
      with assms \<open>rbuf r = []\<close> obtain s where rd: "src_read (rd r) n = (bs, None, s)"
        and r': "r' = r\<lparr>rd := s\<rparr>"
        by (auto simp: Reader_Read_def split: prod.splits)
      from src_read_None [OF assms(1) rd] r' \<open>rbuf r = []\<close> show ?thesis
        by (simp add: avail_def pend_def weight_def)
    next
      case False
      obtain cs e s where rd: "src_read (rd r) (buf_len r) = (cs, e, s)"
        by (cases "src_read (rd r) (buf_len r)") auto
      show ?thesis
      proof (cases e)
        case (Some e')
        from src_read_Some(1) [OF buf_len_pos rd [unfolded Some]] have "cs = []" .
        with assms \<open>rbuf r = []\<close> False rd Some show ?thesis
          by (simp add: Reader_Read_def)
      next
        case None
        note facts = src_read_None [OF buf_len_pos rd [unfolded None]]
        from assms \<open>rbuf r = []\<close> False rd facts(1)
        have bs: "bs = take n cs" and r': "r' = r\<lparr>rbuf := drop n cs, rd := s\<rparr>"
          by (simp_all add: Reader_Read_def)
        from facts bs r' \<open>rbuf r = []\<close> assms(1) show ?thesis
          by (auto simp: avail_def pend_def weight_def)
      qed
    qed
  qed
  then show "bs \<noteq> []" and "length bs \<le> n" and "avail r = bs @ avail r'"
    and "pend r' = pend r" and "weight r' \<le> weight r"
    by simp_all
qed

lemma Reader_Read_Some:
  assumes "0 < n" and "Reader_Read r n = (bs, Some err, r')"
  shows "bs = []" and "avail r = []" and "err = pend r" and "weight r' \<le> weight r"
proof -
  from assms have buf: "rbuf r = []"
    by (auto simp: Reader_Read_def split: if_splits)
  have "bs = [] \<and> avail r = [] \<and> err = pend r \<and> weight r' \<le> weight r"
  proof (cases "buf_len r \<le> n")
    case True
    with assms buf obtain s where rd: "src_read (rd r) n = (bs, Some err, s)"
      and r': "r' = r\<lparr>rd := s\<rparr>"
      by (auto simp: Reader_Read_def split: prod.splits)
    from src_read_Some(1-4) [OF assms(1) rd] r' buf show ?thesis
      by (simp add: avail_def pend_def weight_def)
  next
    case False
    with assms buf obtain cs s where rd: "src_read (rd r) (buf_len r) = (cs, Some err, s)"
      and bs: "bs = []" and r': "r' = r\<lparr>rd := s\<rparr>"
      by (auto simp: Reader_Read_def split: prod.splits if_splits)
    from src_read_Some(1-4) [OF buf_len_pos rd] r' buf bs show ?thesis
      by (simp add: avail_def pend_def weight_def)
  qed
  then show "bs = []" and "avail r = []" and "err = pend r" and "weight r' \<le> weight r"
    by simp_all
qed

lemma ReadAtLeast_loop_spec:
  assumes "length acc \<le> need" and "ReadAtLeast_loop r need acc = (bs, e, r')"
  shows "weight r' \<le> weight r \<and>
         (if need - length acc \<le> length (avail r)
          then e = None \<and> bs = acc @ take (need - length acc) (avail r)
               \<and> avail r' = drop (need - length acc) (avail r) \<and> pend r' = pend r
          else e = Some (pend r) \<and> bs = acc @ avail r)"
  using assms
proof (induction r need acc rule: ReadAtLeast_loop.induct)
  case (1 r need acc)
  show ?case
  proof (cases "length acc < need")
    case False
    with "1.prems" show ?thesis by (simp add: ReadAtLeast_loop.simps)
  next
    case True
    define k where "k = need - length acc"
    have k: "0 < k" using True by (simp add: k_def)
    obtain cs e1 r1 where rr: "Reader_Read r k = (cs, e1, r1)"
      by (cases "Reader_Read r k") auto
    show ?thesis
    proof (cases e1)
      case (Some err)
      note facts = Reader_Read_Some [OF k rr [unfolded Some]]
      from "1.prems"(2) True rr Some have "bs = acc @ cs" "e = Some err" "r' = r1"
        by (simp_all add: ReadAtLeast_loop.simps [of r need acc] k_def)
      with facts k show ?thesis by (simp add: k_def)
    next
      case None
      note facts = Reader_Read_None [OF k rr [unfolded None]]
      from "1.prems"(2) True rr None
      have rec: "ReadAtLeast_loop r1 need (acc @ cs) = (bs, e, r')"
        by (simp add: ReadAtLeast_loop.simps [of r need acc] k_def)
      have len: "length (acc @ cs) \<le> need"
        using facts(2) True by (simp add: k_def)
      have ih: "weight r' \<le> weight r1 \<and>
         (if need - length (acc @ cs) \<le> length (avail r1)
          then e = None \<and> bs = (acc @ cs) @ take (need - length (acc @ cs)) (avail r1)
               \<and> avail r' = drop (need - length (acc @ cs)) (avail r1) \<and> pend r' = pend r1
          else e = Some (pend r1) \<and> bs = (acc @ cs) @ avail r1)"
        using "1.IH" [OF True rr [symmetric, unfolded k_def] refl None len rec] .
      have eq: "need - length (acc @ cs) = k - length cs" by (simp add: k_def)
      have cond: "(k - length cs \<le> length (avail r1)) = (k \<le> length (avail r))"
        using facts(2,3) by auto
      from ih facts show ?thesis
        unfolding eq cond k_def [symmetric] by (auto simp: facts(3))
    qed
  qed
qed

lemma io_ReadFull_enough:
  assumes "n \<le> length (avail r)"
  obtains r' where "io_ReadFull r n = (take n (avail r), None, r')"
    and "avail r' = drop n (avail r)" and "pend r' = pend r" and "weight r' \<le> weight r"
proof -
  obtain bs e r' where loop: "ReadAtLeast_loop r n [] = (bs, e, r')"
    by (cases "ReadAtLeast_loop r n []") auto
  from ReadAtLeast_loop_spec [OF _ loop] assms
  have "weight r' \<le> weight r" "e = None" "bs = take n (avail r)"
    "avail r' = drop n (avail r)" "pend r' = pend r"
    by simp_all
  moreover from this assms loop have "io_ReadFull r n = (take n (avail r), None, r')"
    by (simp add: io_ReadFull_def)
  ultimately show thesis using that by blast
qed

lemma io_ReadFull_short:
  assumes "length (avail r) < n"
  obtains r' where
    "io_ReadFull r n =
       (avail r, Some (if avail r \<noteq> [] \<and> pend r = EOF then ErrUnexpectedEOF else pend r), r')"
    and "weight r' \<le> weight r"
proof -
  obtain bs e r' where loop: "ReadAtLeast_loop r n [] = (bs, e, r')"
    by (cases "ReadAtLeast_loop r n []") auto
  from ReadAtLeast_loop_spec [OF _ loop] assms
  have "weight r' \<le> weight r" "e = Some (pend r)" "bs = avail r"
    by simp_all
  moreover from this assms loop have "io_ReadFull r n =
       (avail r, Some (if avail r \<noteq> [] \<and> pend r = EOF then ErrUnexpectedEOF else pend r), r')"
    by (auto simp: io_ReadFull_def)
  ultimately show thesis using that by blast
qed

lemma io_ReadFull_weight:
  assumes "io_ReadFull r n = (bs, e, r')"
  shows "weight r' \<le> weight r"
proof (cases "n \<le> length (avail r)")
  case True
  from io_ReadFull_enough [OF True] assms show ?thesis by (metis prod.inject)
next
  case False
  then have "length (avail r) < n" by simp
  from io_ReadFull_short [OF this] assms show ?thesis by (metis prod.inject)
qed

section \<open>The frame extractor\<close>

definition maxFileSize :: nat where
  "maxFileSize = 512"

definition escSeq :: "byte list" where
  "escSeq = [0x1b, 0x1b, 0x1b, 0x1b]"

definition endSeq :: "byte list" where
  "endSeq = [0x1b, 0x1b, 0x1b, 0x1b, 0x1a]"

text \<open>\<open>readChunk(r, buf)\<close> returns the error of \<open>io.ReadFull\<close>. The bytes read overwrite the
  front of the destination, whose contents are returned with the error.\<close>

definition readChunk :: "Reader \<Rightarrow> byte list \<Rightarrow> byte list \<times> error option \<times> Reader" where
  "readChunk r buf =
     (case io_ReadFull r (length buf) of
        (bs, err, r') \<Rightarrow> (bs @ drop (length bs) buf, err, r'))"

text \<open>Go's \<open>s[lo:hi]\<close> and the overwriting of \<open>s[lo:lo+len(c)]\<close> by \<open>c\<close>, for indices in
  range; \<open>readFile\<close> keeps them in range by its loop conditions.\<close>

definition slice :: "'a list \<Rightarrow> nat \<Rightarrow> nat \<Rightarrow> 'a list" where
  "slice xs lo hi = take (hi - lo) (drop lo xs)"

definition store :: "'a list \<Rightarrow> nat \<Rightarrow> 'a list \<Rightarrow> 'a list" where
  "store xs lo c = take lo xs @ c @ drop (lo + length c) xs"

text \<open>The first loop of \<open>readFile\<close>: find \<open>1B 1B 1B 1B 01 01 01 01\<close>. \<open>len\<close> is the
  variable of the source.\<close>

function find_start :: "Reader \<Rightarrow> byte list \<Rightarrow> nat \<Rightarrow> error option \<times> byte list \<times> nat \<times> Reader" where
  "find_start r buf len =
     (if len < 8 then
        (case Reader_ReadByte r of
           (Inl err, r') \<Rightarrow> (Some err, buf, len, r')
         | (Inr c, r') \<Rightarrow>
             (let buf = buf[len := c] in
              if (buf ! len = 0x1b \<and> len < 4) \<or> (buf ! len = 0x01 \<and> 4 \<le> len)
              then find_start r' buf (len + 1)
              else find_start r' buf 0))
      else (None, buf, len, r))"
  by pat_completeness auto
termination
  apply (relation "measure (\<lambda>(r, buf, len). weight r)")
    apply simp
   apply (auto dest: Reader_ReadByte_Inr(3) [OF sym])
  done

declare find_start.simps [simp del]

text \<open>The second loop of \<open>readFile\<close>, after the start sequence.\<close>

function read_body :: "Reader \<Rightarrow> byte list \<Rightarrow> nat \<Rightarrow> (error + byte list) \<times> Reader" where
  "read_body r buf len =
     (if len + 8 < maxFileSize then
        (case readChunk r (slice buf len (len + 4)) of
           (chunk, Some err, r') \<Rightarrow> (Inl err, r')
         | (chunk, None, r') \<Rightarrow>
             (let buf = store buf len chunk in
              if slice buf len (len + 4) = escSeq then
                (let len = len + 4 in
                 case readChunk r' (slice buf len (len + 4)) of
                   (chunk, Some err, r'') \<Rightarrow> (Inl err, r'')
                 | (chunk, None, r'') \<Rightarrow>
                     (let buf = store buf len chunk in
                      if buf ! len = 0x1a then (let len = len + 4 in (Inr (take len buf), r''))
                      else (Inl ErrUnrecognizedSequence, r'')))
              else read_body r' buf (len + 4)))
      else (Inl ErrSequenceTooLong, r))"
  by pat_completeness auto
termination
  by (relation "measure (\<lambda>(r, buf, len). maxFileSize - len)") auto

declare read_body.simps [simp del]

definition readFile :: "Reader \<Rightarrow> (error + byte list) \<times> Reader" where
  "readFile r =
     (let buf = replicate maxFileSize 0 in
      case find_start r buf 0 of
        (Some err, buf, len, r') \<Rightarrow> (Inl err, r')
      | (None, buf, len, r') \<Rightarrow> read_body r' buf len)"

lemma readChunk_weight: "readChunk r buf = (bs, e, r') \<Longrightarrow> weight r' \<le> weight r"
  by (auto simp: readChunk_def split: prod.splits dest: io_ReadFull_weight)

lemma find_start_weight:
  assumes "find_start r buf len = (e, buf', len', r')"
  shows "weight r' \<le> weight r \<and> (len < 8 \<longrightarrow> e \<noteq> Some EOF \<longrightarrow> weight r' < weight r)"
  using assms
proof (induction r buf len rule: find_start.induct)
  case (1 r buf len)
  show ?case
  proof (cases "len < 8")
    case False
    with "1.prems" show ?thesis by (simp add: find_start.simps)
  next
    case True
    obtain res r1 where rb: "Reader_ReadByte r = (res, r1)"
      by (cases "Reader_ReadByte r") auto
    show ?thesis
    proof (cases res)
      case (Inl err)
      with "1.prems" True rb have "e = Some err" "r' = r1"
        by (simp_all add: find_start.simps [of r buf len])
      with Reader_ReadByte_Inl(3,4) [OF rb [unfolded Inl]] show ?thesis by auto
    next
      case (Inr c)
      note lt = Reader_ReadByte_Inr(3) [OF rb [unfolded Inr]]
      define buf1 where "buf1 = buf[len := c]"
      have step: "find_start r buf len =
          (if (buf1 ! len = 0x1b \<and> len < 4) \<or> (buf1 ! len = 0x01 \<and> 4 \<le> len)
           then find_start r1 buf1 (len + 1) else find_start r1 buf1 0)"
        using \<open>len < 8\<close> rb Inr by (simp add: find_start.simps [of r buf len] buf1_def Let_def)
      show ?thesis
      proof (cases "(buf1 ! len = 0x1b \<and> len < 4) \<or> (buf1 ! len = 0x01 \<and> 4 \<le> len)")
        case True
        from "1.prems" [unfolded step]
        have "find_start r1 buf1 (len + 1) = (e, buf', len', r')"
          by (simp only: True if_True)
        from "1.IH"(1) [OF \<open>len < 8\<close> rb [symmetric] Inr buf1_def True this] lt
        show ?thesis by simp
      next
        case False
        from "1.prems" [unfolded step]
        have "find_start r1 buf1 0 = (e, buf', len', r')"
          by (simp only: False if_False)
        from "1.IH"(2) [OF \<open>len < 8\<close> rb [symmetric] Inr buf1_def False this] lt
        show ?thesis by simp
      qed
    qed
  qed
qed

lemma read_body_weight:
  assumes "read_body r buf len = (res, r')"
  shows "weight r' \<le> weight r"
  using assms
proof (induction r buf len rule: read_body.induct)
  case (1 r buf len)
  show ?case
  proof (cases "len + 8 < maxFileSize")
    case False
    with "1.prems" show ?thesis by (simp add: read_body.simps)
  next
    case True
    obtain chunk e1 r1 where rc: "readChunk r (slice buf len (len + 4)) = (chunk, e1, r1)"
      by (cases "readChunk r (slice buf len (len + 4))") auto
    note w1 = readChunk_weight [OF rc]
    show ?thesis
    proof (cases e1)
      case (Some err)
      with "1.prems" True rc have "r' = r1"
        by (simp add: read_body.simps [of r buf len])
      with w1 show ?thesis by simp
    next
      case None
      define buf1 where "buf1 = store buf len chunk"
      show ?thesis
      proof (cases "slice buf1 len (len + 4) = escSeq")
        case False
        with "1.prems" True rc None
        have "read_body r1 buf1 (len + 4) = (res, r')"
          by (simp add: read_body.simps [of r buf len] buf1_def Let_def)
        from "1.IH" [OF True rc [symmetric] refl None buf1_def False this] w1
        show ?thesis by simp
      next
        case esc: True
        obtain chunk2 e2 r2 where
          rc2: "readChunk r1 (slice buf1 (len + 4) (len + 4 + 4)) = (chunk2, e2, r2)"
          by (cases "readChunk r1 (slice buf1 (len + 4) (len + 4 + 4))") auto
        from "1.prems" True rc None esc rc2 have "r' = r2"
          by (auto simp: read_body.simps [of r buf len] buf1_def Let_def split: option.splits if_splits)
        with w1 readChunk_weight [OF rc2] show ?thesis by simp
      qed
    qed
  qed
qed

lemma readFile_weight:
  assumes "readFile r = (res, r')" and "res \<noteq> Inl EOF"
  shows "weight r' < weight r"
proof -
  obtain e buf len r1 where fs: "find_start r (replicate maxFileSize 0) 0 = (e, buf, len, r1)"
    by (cases "find_start r (replicate maxFileSize 0) 0") auto
  note w = find_start_weight [OF fs]
  show ?thesis
  proof (cases e)
    case (Some err)
    with assms fs have "res = Inl err" "r' = r1"
      by (simp_all add: readFile_def)
    with assms(2) w Some show ?thesis by simp
  next
    case None
    with assms fs have "read_body r1 buf len = (res, r')"
      by (simp add: readFile_def)
    from read_body_weight [OF this] w None show ?thesis by simp
  qed
qed

section \<open>Messages and the parser\<close>

text \<open>Modelled from the spec: the declarations of \<open>Message\<close>, \<open>Buffer\<close> and the message-type
  constants, and the functions \<open>GetCurrentByte\<close>, \<open>UpdateBytesRead\<close> and \<open>MessageParse\<close>
  are not among the sources. Of a message, \<open>Read\<close> uses \<open>MessageBody.Tag\<close> and
  \<open>MessageBody.Data\<close>, a value of interface type that holds a \<open>GetListResponse\<close> or
  something else. A buffer is a byte slice with a cursor; the end-of-message byte is
  \<open>0x00\<close>; \<open>MESSAGE_GET_LIST_RESPONSE\<close> is the tag of SML's GetList.Res, and no
  theorem below depends on its value.\<close>

datatype body_data = GetListResponseData GetListResponse | OtherData

record MessageBody =
  Tag :: "32 word"
  Data :: body_data

record Message =
  MessageBody :: MessageBody

record Buffer =
  Bytes :: "byte list"
  Cursor :: nat

definition MESSAGE_GET_LIST_RESPONSE :: "32 word" where
  "MESSAGE_GET_LIST_RESPONSE = 0x00000701"

definition OCTET_MESSAGE_END :: byte where
  "OCTET_MESSAGE_END = 0x00"

definition GetCurrentByte :: "Buffer \<Rightarrow> panic + byte" where
  "GetCurrentByte buf = index (Bytes buf) (Cursor buf)"

definition UpdateBytesRead :: "Buffer \<Rightarrow> nat \<Rightarrow> Buffer" where
  "UpdateBytesRead buf n = buf\<lparr>Cursor := Cursor buf + n\<rparr>"

text \<open>\<open>MessageParse\<close> is a parameter of the model: any function that, at a buffer, panics,
  returns an error, or returns a message and advances the cursor. By the spec every parser
  advances the cursor and a message starts with its TL byte, so a success is the message
  and the number of bytes consumed after that first byte.\<close>

datatype parse_step = MPanic | MErr error | MOk Message nat

type_synonym message_parser = "Buffer \<Rightarrow> parse_step"

text \<open>\<open>parseFile\<close>: the loop over the buffer. The result is a panic, or the pair the
  function returns.\<close>

function parseFile_loop :: "message_parser \<Rightarrow> Buffer \<Rightarrow> Message list \<Rightarrow> panic + Message list \<times> error option" where
  "parseFile_loop MessageParse buf messages =
     (if Cursor buf < length (Bytes buf) then
        (case GetCurrentByte buf of
           Inl p \<Rightarrow> Inl p
         | Inr c \<Rightarrow>
             if c = OCTET_MESSAGE_END then
               parseFile_loop MessageParse (UpdateBytesRead buf 1) messages
             else
               (case MessageParse buf of
                  MPanic \<Rightarrow> Inl ParserPanic
                | MErr err \<Rightarrow> Inr (messages, Some err)
                | MOk msg k \<Rightarrow>
                    parseFile_loop MessageParse (UpdateBytesRead buf (Suc k)) (messages @ [msg])))
      else Inr (messages, None))"
  by pat_completeness auto
termination
  by (relation "measure (\<lambda>(mp, buf, messages). length (Bytes buf) - Cursor buf)")
     (auto simp: UpdateBytesRead_def)

declare parseFile_loop.simps [simp del]

definition parseFile :: "message_parser \<Rightarrow> byte list \<Rightarrow> panic + Message list \<times> error option" where
  "parseFile MessageParse fileBytes =
     parseFile_loop MessageParse \<lparr>Bytes = fileBytes, Cursor = 0\<rparr> []"

section \<open>The driver loop\<close>

text \<open>The function literal of \<open>Read\<close> with its deferred \<open>recover\<close>: a panic of the slice
  expression \<open>fileBytes[8 : len(fileBytes)-8]\<close> or of \<open>parseFile\<close> leaves the named results
  at nil and the new error.\<close>

definition try_parse :: "message_parser \<Rightarrow> byte list \<Rightarrow> Message list \<times> error option" where
  "try_parse MessageParse fileBytes =
     (if length fileBytes < 8 + 8 then ([], Some ErrParsePanic)
      else (case parseFile MessageParse (slice fileBytes 8 (length fileBytes - 8)) of
              Inl p \<Rightarrow> ([], Some ErrParsePanic)
            | Inr (msgs, err) \<Rightarrow> (msgs, err)))"

text \<open>A trace is the list of the callback invocations made, each with the entry given
  to it.\<close>

type_synonym 'c trace = "('c \<times> ListEntry) list"

fun dispatch_entries :: "'c obisGroupCallback \<Rightarrow> ListEntry list \<Rightarrow> 'c trace \<times> panic option" where
  "dispatch_entries tree [] = ([], None)"
| "dispatch_entries tree (elem # rest) =
     (if length (ObjName elem) > 0 then
        (case call tree (ObjName elem) of
           (fired, Some p) \<Rightarrow> (map (\<lambda>cb. (cb, elem)) fired, Some p)
         | (fired, None) \<Rightarrow>
             (case dispatch_entries tree rest of
                (later, p) \<Rightarrow> (map (\<lambda>cb. (cb, elem)) fired @ later, p)))
      else dispatch_entries tree rest)"

fun dispatch_messages :: "'c options \<Rightarrow> Message list \<Rightarrow> 'c trace \<times> panic option" where
  "dispatch_messages topLevelCallback [] = ([], None)"
| "dispatch_messages topLevelCallback (msg # rest) =
     (if topLevelCallback \<noteq> None \<and> Tag (MessageBody msg) = MESSAGE_GET_LIST_RESPONSE then
        (case Data (MessageBody msg) of
           GetListResponseData list \<Rightarrow>
             (case dispatch_entries (the topLevelCallback) (ValList list) of
                (fired, Some p) \<Rightarrow> (fired, Some p)
              | (fired, None) \<Rightarrow>
                  (case dispatch_messages topLevelCallback rest of
                     (later, p) \<Rightarrow> (fired @ later, p)))
         | OtherData \<Rightarrow> dispatch_messages topLevelCallback rest)
      else dispatch_messages topLevelCallback rest)"

text \<open>What a call of \<open>Read\<close> does: it returns nil or an error, or it panics.\<close>

datatype outcome = Return "error option" | Panicked panic

function Read_loop :: "message_parser \<Rightarrow> 'c options \<Rightarrow> Reader \<Rightarrow> outcome \<times> 'c trace" where
  "Read_loop MessageParse options r =
     (case readFile r of
        (Inl err, r') \<Rightarrow>
          if err = EOF then (Return None, [])
          else if err = ErrSequenceTooLong \<or> err = ErrUnrecognizedSequence then
            Read_loop MessageParse options r'
          else (Return (Some err), [])
      | (Inr fileBytes, r') \<Rightarrow>
          (case try_parse MessageParse fileBytes of
             (fileMessages, Some parseErr) \<Rightarrow> Read_loop MessageParse options r'
           | (fileMessages, None) \<Rightarrow>
               (case dispatch_messages options fileMessages of
                  (fired, Some p) \<Rightarrow> (Panicked p, fired)
                | (fired, None) \<Rightarrow>
                    (case Read_loop MessageParse options r' of
                       (res, later) \<Rightarrow> (res, fired @ later)))))"
  by pat_completeness auto
termination
  apply (relation "measure (\<lambda>(mp, options, r). weight r)")
     apply simp
    apply (auto dest!: sym [of _ "readFile _"] dest: readFile_weight)
  done

declare Read_loop.simps [simp del]

definition Read :: "message_parser \<Rightarrow> Reader \<Rightarrow> 'c ReadOption list \<Rightarrow> outcome \<times> 'c trace" where
  "Read MessageParse r opts = Read_loop MessageParse (apply_opts opts) r"

section \<open>Rendering a list entry (msg\_getlistresponse.go)\<close>

text \<open>\<open>%d\<close> of a byte: its decimal digits.\<close>

fun decimal :: "nat \<Rightarrow> string" where
  "decimal n =
     (if n < 10 then [char_of (48 + n)] else decimal (n div 10) @ [char_of (48 + n mod 10)])"

declare decimal.simps [simp del]

text \<open>\<open>ObjectName\<close> indexes \<open>le.ObjName[0]\<close> to \<open>le.ObjName[5]\<close>, in this order, before
  \<open>fmt.Sprintf\<close> is called, and each index panics when it is out of range.\<close>

definition ObjectName :: "ListEntry \<Rightarrow> panic + string" where
  "ObjectName le =
     (case index (ObjName le) 0 of Inl p \<Rightarrow> Inl p | Inr a \<Rightarrow>
     (case index (ObjName le) 1 of Inl p \<Rightarrow> Inl p | Inr b \<Rightarrow>
     (case index (ObjName le) 2 of Inl p \<Rightarrow> Inl p | Inr c \<Rightarrow>
     (case index (ObjName le) 3 of Inl p \<Rightarrow> Inl p | Inr d \<Rightarrow>
     (case index (ObjName le) 4 of Inl p \<Rightarrow> Inl p | Inr e \<Rightarrow>
     (case index (ObjName le) 5 of Inl p \<Rightarrow> Inl p | Inr f \<Rightarrow>
        Inr (decimal (unat a) @ ''-'' @ decimal (unat b) @ '':'' @ decimal (unat c) @ ''.''
             @ decimal (unat d) @ ''.'' @ decimal (unat e) @ ''*'' @ decimal (unat f))))))))"

text \<open>\<open>String\<close> is \<open>fmt.Sprintf("%-22s%s", le.ObjectName(), le.ValueString())\<close>: the
  arguments are evaluated from the left, \<open>ObjectName\<close> first. \<open>ValueString\<close> formats a
  floating-point number and is a parameter here.\<close>

definition pad_right :: "nat \<Rightarrow> string \<Rightarrow> string" where
  "pad_right w s = s @ replicate (w - length s) CHR '' ''"

definition ListEntry_String :: "(ListEntry \<Rightarrow> string) \<Rightarrow> ListEntry \<Rightarrow> panic + string" where
  "ListEntry_String ValueString le =
     (case ObjectName le of
        Inl p \<Rightarrow> Inl p
      | Inr name \<Rightarrow> Inr (pad_right 22 name @ ValueString le))"

section \<open>A sample parser and sample frames\<close>

text \<open>The theorems about \<open>parseFile\<close> and \<open>Read\<close> hold for every message parser. Their
  instances below use this one: a message is the byte \<open>0x76\<close>, a length byte \<open>n\<close> and
  \<open>n\<close> bytes, the object name of the only entry of a GetListResponse; any other first
  byte is a parse error, and a length that runs past the buffer is an index panic.\<close>

definition entry_of :: "OctetString \<Rightarrow> ListEntry" where
  "entry_of name =
     \<lparr>ObjName = name, status = 0, valTime = 0, Unit = 30, scaler = 0,
      Value = \<lparr>Typ = 0x65, DataBytes = [], DataBoolean = False, DataInt = 0\<rparr>,
      ValueSignature = []\<rparr>"

definition list_message :: "ListEntry list \<Rightarrow> Message" where
  "list_message es =
     \<lparr>MessageBody = \<lparr>Tag = MESSAGE_GET_LIST_RESPONSE,
        Data = GetListResponseData
          \<lparr>ClientID = [], ServerID = [], ListName = [], ActSensorTime = 0, ValList = es,
           ListSignature = [], ActGatewayTime = 0\<rparr>\<rparr>\<rparr>"

definition sample_parser :: message_parser where
  "sample_parser buf =
     (case drop (Cursor buf) (Bytes buf) of
        [] \<Rightarrow> MPanic
      | t # rest \<Rightarrow>
          if t \<noteq> 0x76 then MErr (ParseError 0)
          else (case rest of
                  [] \<Rightarrow> MPanic
                | n # body \<Rightarrow>
                    if length body < unat n then MPanic
                    else MOk (list_message [entry_of (take (unat n) body)]) (Suc (unat n))))"

definition startSeq :: "byte list" where
  "startSeq = [0x1b, 0x1b, 0x1b, 0x1b, 0x01, 0x01, 0x01, 0x01]"

text \<open>\<open>buildSMLFrame\<close> of the tests, for a payload whose length is a multiple of 4.\<close>

definition buildSMLFrame :: "byte list \<Rightarrow> byte list" where
  "buildSMLFrame payload = startSeq @ payload @ endSeq @ [0, 0, 0]"

fun chunk_of :: "byte list \<Rightarrow> source" where
  "chunk_of [] = []"
| "chunk_of (b # bs) = [Chunk b bs]"

text \<open>A source that gives one byte to each call, like \<open>oneByteReaderImpl\<close> of the tests.\<close>

definition one_byte_source :: "byte list \<Rightarrow> source" where
  "one_byte_source bs = map (\<lambda>b. Chunk b []) bs"

section \<open>Notions used in the statements\<close>

text \<open>A body none of whose 4-byte chunks, counted from its start, is the escape
  sequence.\<close>

fun no_escape :: "byte list \<Rightarrow> bool" where
  "no_escape (a # b # c # d # rest) = ([a, b, c, d] \<noteq> escSeq \<and> no_escape rest)"
| "no_escape _ = True"

text \<open>A frame with the given body, padding count and CRC bytes, and the bodies the
  extractor accepts: a whole number of 4-byte chunks, none of them the escape sequence,
  short enough for the end sequence to be looked for.\<close>

definition frame_of :: "byte list \<Rightarrow> byte \<Rightarrow> byte \<Rightarrow> byte \<Rightarrow> byte list" where
  "frame_of body p c1 c2 = startSeq @ body @ endSeq @ [p, c1, c2]"

definition body_ok :: "byte list \<Rightarrow> bool" where
  "body_ok body = (4 dvd length body \<and> length body + 16 < maxFileSize \<and> no_escape body)"

text \<open>The invocations a dispatch of one entry makes after the registrations \<open>regs\<close>, and
  the entries of a message that \<open>Read\<close> dispatches.\<close>

definition fired_for :: "'c ReadOption list \<Rightarrow> ListEntry \<Rightarrow> 'c trace" where
  "fired_for regs e =
     map (\<lambda>cb. (cb, e)) (concat (map (registered_at regs) (prefixes (ObjName e))))"

definition dispatched_entries :: "Message \<Rightarrow> ListEntry list" where
  "dispatched_entries msg =
     (if Tag (MessageBody msg) = MESSAGE_GET_LIST_RESPONSE then
        (case Data (MessageBody msg) of
           GetListResponseData list \<Rightarrow> filter (\<lambda>e. 0 < length (ObjName e)) (ValList list)
         | OtherData \<Rightarrow> [])
      else [])"

text \<open>Parsing a payload fails when \<open>parseFile\<close> panics or returns an error.\<close>

definition parse_fails :: "message_parser \<Rightarrow> byte list \<Rightarrow> bool" where
  "parse_fails mp payload =
     (case parseFile mp payload of Inl p \<Rightarrow> True | Inr (msgs, err) \<Rightarrow> err \<noteq> None)"

text \<open>Sample frames for the sample parser: a payload whose length byte runs past the
  buffer, one message with the two-byte object name \<open>{1,0}\<close>, and a message followed by
  a byte that is no message.\<close>

definition corrupt_frame :: "byte list" where
  "corrupt_frame = buildSMLFrame [0x76, 0xff, 0xff, 0xff]"

definition valid_frame :: "byte list" where
  "valid_frame = buildSMLFrame [0x76, 2, 1, 0]"


section \<open>Reading from a stream\<close>

lemma Reader_ReadByte_avail:
  assumes "avail r = c # xs"
  obtains r' where "Reader_ReadByte r = (Inr c, r')" and "avail r' = xs" and "pend r' = pend r"
proof -
  obtain res r' where rb: "Reader_ReadByte r = (res, r')"
    by (cases "Reader_ReadByte r") auto
  show thesis
  proof (cases res)
    case (Inl err)
    from Reader_ReadByte_Inl(1) [OF rb [unfolded Inl]] assms show ?thesis by simp
  next
    case (Inr c')
    from Reader_ReadByte_Inr(1,2) [OF rb [unfolded Inr]] assms rb Inr that show ?thesis
      by simp
  qed
qed

lemma readChunk_spec:
  assumes "readChunk r buf = (out, err, r')"
  shows "if length buf \<le> length (avail r)
         then err = None \<and> out = take (length buf) (avail r)
              \<and> avail r' = drop (length buf) (avail r) \<and> pend r' = pend r
         else err = Some (if avail r \<noteq> [] \<and> pend r = EOF then ErrUnexpectedEOF else pend r)"
proof (cases "length buf \<le> length (avail r)")
  case True
  from io_ReadFull_enough [OF True] obtain r1 where
    "io_ReadFull r (length buf) = (take (length buf) (avail r), None, r1)"
    "avail r1 = drop (length buf) (avail r)" "pend r1 = pend r"
    by blast
  with assms True show ?thesis by (simp add: readChunk_def)
next
  case False
  then have "length (avail r) < length buf" by simp
  from io_ReadFull_short [OF this] obtain r1 where
    "io_ReadFull r (length buf) =
       (avail r, Some (if avail r \<noteq> [] \<and> pend r = EOF then ErrUnexpectedEOF else pend r), r1)"
    by blast
  with assms False show ?thesis by (simp add: readChunk_def)
qed

lemma readChunk_avail:
  assumes "avail r = chunk @ xs" and "length buf = length chunk"
  obtains r' where "readChunk r buf = (chunk, None, r')" and "avail r' = xs"
    and "pend r' = pend r"
proof -
  obtain out err r' where rc: "readChunk r buf = (out, err, r')"
    by (cases "readChunk r buf") auto
  from readChunk_spec [OF rc] assms
  have "err = None" "out = chunk" "avail r' = xs" "pend r' = pend r" by simp_all
  with rc that show thesis by simp
qed

lemma slice_length: "hi \<le> length xs \<Longrightarrow> length (slice xs lo hi) = hi - lo"
  by (simp add: slice_def)

lemma store_length: "lo + length c \<le> length xs \<Longrightarrow> length (store xs lo c) = length xs"
  by (simp add: store_def)

lemma slice_store: "lo + length c \<le> length xs \<Longrightarrow> slice (store xs lo c) lo (lo + length c) = c"
  by (simp add: slice_def store_def)

lemma take_store: "lo + length c \<le> length xs \<Longrightarrow> take (lo + length c) (store xs lo c) = take lo xs @ c"
  by (simp add: store_def)

lemma store_nth: "lo + length c \<le> length xs \<Longrightarrow> c \<noteq> [] \<Longrightarrow> store xs lo c ! lo = hd c"
  by (cases c) (simp_all add: store_def nth_append)

lemma slice_store4:
  "length c = 4 \<Longrightarrow> lo + 4 \<le> length xs \<Longrightarrow> slice (store xs lo c) lo (lo + 4) = c"
  using slice_store [of lo c xs] by simp

lemma take_store4:
  "length c = 4 \<Longrightarrow> lo + 4 \<le> length xs \<Longrightarrow> take (lo + 4) (store xs lo c) = take lo xs @ c"
  using take_store [of lo c xs] by simp

lemma store_length4:
  "length c = 4 \<Longrightarrow> lo + 4 \<le> length xs \<Longrightarrow> length (store xs lo c) = length xs"
  using store_length [of lo c xs] by simp

lemma startSeq_nth:
  "len < 8 \<Longrightarrow> (startSeq ! len = 0x1b \<and> len < 4) \<or> (startSeq ! len = 0x01 \<and> 4 \<le> len)"
proof -
  assume "len < 8"
  then consider "len = 0" | "len = 1" | "len = 2" | "len = 3" | "len = 4" | "len = 5"
    | "len = 6" | "len = 7" by linarith
  then show ?thesis by cases (simp_all add: startSeq_def)
qed

lemma find_start_found:
  assumes "avail r = drop len startSeq @ xs" and "len \<le> 8"
    and "take len buf = take len startSeq" and "length buf = maxFileSize"
  obtains buf' r' where "find_start r buf len = (None, buf', 8, r')"
    and "take 8 buf' = startSeq" and "length buf' = maxFileSize"
    and "avail r' = xs" and "pend r' = pend r"
  using assms
proof (induction "8 - len" arbitrary: r buf len thesis)
  case 0
  then have "len = 8" by simp
  moreover have "take 8 startSeq = startSeq" by (simp add: startSeq_def)
  ultimately show ?case using 0
    by (simp add: find_start.simps [of r buf 8])
next
  case (Suc n)
  then have len: "len < 8" by simp
  define c where "c = startSeq ! len"
  have ls: "length startSeq = 8" by (simp add: startSeq_def)
  have dr: "drop len startSeq = c # drop (Suc len) startSeq"
    using len ls by (simp add: c_def Cons_nth_drop_Suc)
  from Reader_ReadByte_avail [of r c "drop (Suc len) startSeq @ xs"] Suc.prems(2) dr
  obtain r1 where rb: "Reader_ReadByte r = (Inr c, r1)"
    and av: "avail r1 = drop (Suc len) startSeq @ xs" and pe: "pend r1 = pend r"
    by auto
  define buf1 where "buf1 = buf[len := c]"
  have inb: "len < length buf" using len Suc.prems(5) by (simp add: maxFileSize_def)
  have nth: "buf1 ! len = c" using inb by (simp add: buf1_def)
  have cond: "(buf1 ! len = 0x1b \<and> len < 4) \<or> (buf1 ! len = 0x01 \<and> 4 \<le> len)"
    using startSeq_nth [OF len] by (simp add: nth c_def)
  have step: "find_start r buf len = find_start r1 buf1 (len + 1)"
    using len rb cond by (simp add: find_start.simps [of r buf len] buf1_def Let_def)
  have tk: "take (len + 1) buf1 = take (len + 1) startSeq"
  proof -
    have "take (len + 1) buf1 = take len buf1 @ [buf1 ! len]"
      using inb by (simp add: take_Suc_conv_app_nth buf1_def)
    also have "\<dots> = take len startSeq @ [c]"
    proof -
      have "take len buf1 = take len buf" by (simp add: buf1_def)
      with Suc.prems(4) nth show ?thesis by simp
    qed
    also have "\<dots> = take (len + 1) startSeq"
      using len ls by (simp add: take_Suc_conv_app_nth c_def)
    finally show ?thesis .
  qed
  have "8 - (len + 1) = n" using Suc.hyps(2) by simp
  from Suc.hyps(1) [OF this [symmetric] _ _ _ tk] av len Suc.prems(5)
  obtain buf' r' where "find_start r1 buf1 (len + 1) = (None, buf', 8, r')"
    "take 8 buf' = startSeq" "length buf' = maxFileSize" "avail r' = xs" "pend r' = pend r1"
    by (auto simp: buf1_def)
  with step pe Suc.prems(1) show ?case by simp
qed

lemma read_body_skip:
  assumes "len + 8 < maxFileSize" and "length buf = maxFileSize"
    and "avail r = chunk @ xs" and "length chunk = 4" and "chunk \<noteq> escSeq"
  obtains r1 where "read_body r buf len = read_body r1 (store buf len chunk) (len + 4)"
    and "avail r1 = xs" and "pend r1 = pend r"
proof -
  have l4: "length (slice buf len (len + 4)) = length chunk"
    using assms(1,2,4) by (simp add: slice_length)
  from readChunk_avail [OF assms(3) l4] obtain r1 where
    rc: "readChunk r (slice buf len (len + 4)) = (chunk, None, r1)"
    and av: "avail r1 = xs" "pend r1 = pend r"
    by blast
  have "slice (store buf len chunk) len (len + 4) = chunk"
    using assms(1,2,4) by (simp add: slice_store4)
  with assms(1,5) rc
  have "read_body r buf len = read_body r1 (store buf len chunk) (len + 4)"
    by (simp add: read_body.simps [of r buf len] Let_def)
  with av that show thesis by blast
qed

lemma read_body_end:
  assumes "len + 8 < maxFileSize" and "length buf = maxFileSize"
    and "avail r = escSeq @ [t, p, c1, c2] @ xs"
  obtains r2 where
    "read_body r buf len =
       (if t = 0x1a then Inr (take len buf @ escSeq @ [t, p, c1, c2])
        else Inl ErrUnrecognizedSequence, r2)"
    and "avail r2 = xs" and "pend r2 = pend r"
proof -
  have le: "length escSeq = 4" by (simp add: escSeq_def)
  have l4: "length (slice buf len (len + 4)) = length escSeq"
    using assms(1,2) by (simp add: slice_length le)
  from readChunk_avail [OF assms(3) l4] obtain r1 where
    rc: "readChunk r (slice buf len (len + 4)) = (escSeq, None, r1)"
    and av1: "avail r1 = [t, p, c1, c2] @ xs" "pend r1 = pend r"
    by blast
  define buf1 where "buf1 = store buf len escSeq"
  have lb1: "length buf1 = maxFileSize"
    using assms(1,2) by (simp add: buf1_def store_length4 le)
  have sl1: "slice buf1 len (len + 4) = escSeq"
    using assms(1,2) by (simp add: buf1_def slice_store4 le)
  have tk1: "take (len + 4) buf1 = take len buf @ escSeq"
    using assms(1,2) by (simp add: buf1_def take_store4 le)
  have l4': "length (slice buf1 (len + 4) (len + 4 + 4)) = length [t, p, c1, c2]"
    using assms(1) lb1 by (simp add: slice_length)
  from readChunk_avail [OF av1(1) l4'] obtain r2 where
    rc2: "readChunk r1 (slice buf1 (len + 4) (len + 4 + 4)) = ([t, p, c1, c2], None, r2)"
    and av2: "avail r2 = xs" "pend r2 = pend r1"
    by blast
  define buf2 where "buf2 = store buf1 (len + 4) [t, p, c1, c2]"
  have nth2: "buf2 ! (len + 4) = t"
    using store_nth [of "len + 4" "[t, p, c1, c2]" buf1] assms(1) lb1 by (simp add: buf2_def)
  have "take (len + 4 + 4) buf2 = take (len + 4) buf1 @ [t, p, c1, c2]"
    unfolding buf2_def using assms(1) lb1 by (intro take_store4) simp_all
  then have tk2: "take (len + 4 + 4) buf2 = take len buf @ escSeq @ [t, p, c1, c2]"
    using tk1 by simp
  have "read_body r buf len =
       (if t = 0x1a then Inr (take len buf @ escSeq @ [t, p, c1, c2])
        else Inl ErrUnrecognizedSequence, r2)"
    using assms(1) rc sl1 rc2 nth2 tk2
    by (simp add: read_body.simps [of r buf len] Let_def buf1_def [symmetric] buf2_def [symmetric])
  with av2 av1(2) that show thesis by simp
qed

lemma read_body_chunks:
  assumes "no_escape body" and "4 dvd length body" and "len + length body + 8 \<le> maxFileSize"
    and "length buf = maxFileSize" and "avail r = body @ xs"
  obtains r1 buf1 where "read_body r buf len = read_body r1 buf1 (len + length body)"
    and "length buf1 = maxFileSize" and "take (len + length body) buf1 = take len buf @ body"
    and "avail r1 = xs" and "pend r1 = pend r"
proof -
  have nd: "\<not> (4::nat) dvd Suc 0" "\<not> (4::nat) dvd Suc (Suc 0)"
    "\<not> (4::nat) dvd Suc (Suc (Suc 0))"
    by presburger+
  from that assms show thesis
  proof (induction body arbitrary: r buf len thesis rule: no_escape.induct)
  case (1 a b c d rest)
  define chunk where "chunk = [a, b, c, d]"
  have lc: "length chunk = 4" by (simp add: chunk_def)
  have body: "a # b # c # d # rest = chunk @ rest" by (simp add: chunk_def)
  have ne: "chunk \<noteq> escSeq" and nrest: "no_escape rest"
    using "1.prems"(2) by (simp_all add: chunk_def)
  have len8: "len + 8 < maxFileSize" using "1.prems"(4) by simp
  have av: "avail r = chunk @ (rest @ xs)" using "1.prems"(6) by (simp add: chunk_def)
  from read_body_skip [OF len8 "1.prems"(5) av lc ne] obtain r1 where
    step: "read_body r buf len = read_body r1 (store buf len chunk) (len + 4)"
    and av1: "avail r1 = rest @ xs" "pend r1 = pend r"
    by blast
  define bufa where "bufa = store buf len chunk"
  have lba: "length bufa = maxFileSize"
    using "1.prems"(5) len8 lc by (simp add: bufa_def store_length4)
  have tka: "take (len + 4) bufa = take len buf @ chunk"
    using "1.prems"(5) len8 lc by (simp add: bufa_def take_store4)
  have "length (a # b # c # d # rest) = length rest + 4" by simp
  with "1.prems"(3) have dv: "4 dvd length rest" by (simp only: dvd_add_triv_right_iff)
  have bound: "(len + 4) + length rest + 8 \<le> maxFileSize" using "1.prems"(4) by simp
  from "1.IH" [OF _ nrest dv bound lba av1(1)] obtain r2 buf2 where
    rec: "read_body r1 bufa (len + 4) = read_body r2 buf2 (len + 4 + length rest)"
    and l2: "length buf2 = maxFileSize"
    and tk2: "take (len + 4 + length rest) buf2 = take (len + 4) bufa @ rest"
    and av2: "avail r2 = xs" "pend r2 = pend r1"
    by blast
  have e: "len + length (a # b # c # d # rest) = len + 4 + length rest" by simp
  have A: "read_body r buf len = read_body r2 buf2 (len + length (a # b # c # d # rest))"
    unfolding e by (rule trans [OF step rec [unfolded bufa_def]])
  have B: "take (len + length (a # b # c # d # rest)) buf2 = take len buf @ a # b # c # d # rest"
    unfolding e tk2 tka by (simp add: chunk_def)
  have C: "pend r2 = pend r" using av2(2) av1(2) by simp
  show ?case by (rule "1.prems"(1) [OF A l2 B av2(1) C])
  qed (use nd in simp_all)
qed

lemma no_escape_chunk:
  "length c = 4 \<Longrightarrow> no_escape (c @ rest) = (c \<noteq> escSeq \<and> no_escape rest)"
proof -
  assume "length c = 4"
  then obtain a b c' d where "c = [a, b, c', d]"
    by (cases c; cases "tl c"; cases "tl (tl c)"; cases "tl (tl (tl c))") auto
  then show ?thesis by simp
qed

lemma readFile_frame:
  assumes "avail r = startSeq @ body @ escSeq @ [t, p, c1, c2] @ xs"
    and "no_escape body" and "4 dvd length body" and "length body + 16 < maxFileSize"
  obtains r' where
    "readFile r =
       (if t = 0x1a then Inr (startSeq @ body @ escSeq @ [t, p, c1, c2])
        else Inl ErrUnrecognizedSequence, r')"
    and "avail r' = xs" and "pend r' = pend r"
proof -
  define buf0 :: "byte list" where "buf0 = replicate maxFileSize 0"
  have l0: "length buf0 = maxFileSize" by (simp add: buf0_def)
  from find_start_found [of r 0 "body @ escSeq @ [t, p, c1, c2] @ xs" buf0] assms(1) l0
  obtain bufs rs where fs: "find_start r buf0 0 = (None, bufs, 8, rs)"
    and tks: "take 8 bufs = startSeq" and ls: "length bufs = maxFileSize"
    and avs: "avail rs = body @ escSeq @ [t, p, c1, c2] @ xs" and pes: "pend rs = pend r"
    by auto
  have b1: "8 + length body + 8 \<le> maxFileSize" using assms(4) by simp
  from read_body_chunks [OF assms(2,3) b1 ls avs]
  obtain r1 buf1 where rb: "read_body rs bufs 8 = read_body r1 buf1 (8 + length body)"
    and l1: "length buf1 = maxFileSize"
    and tk1: "take (8 + length body) buf1 = take 8 bufs @ body"
    and av1: "avail r1 = escSeq @ [t, p, c1, c2] @ xs" and pe1: "pend r1 = pend rs"
    by blast
  have b2: "8 + length body + 8 < maxFileSize" using assms(4) by simp
  from read_body_end [OF b2 l1 av1]
  obtain r2 where re: "read_body r1 buf1 (8 + length body) =
       (if t = 0x1a then Inr (take (8 + length body) buf1 @ escSeq @ [t, p, c1, c2])
        else Inl ErrUnrecognizedSequence, r2)"
    and av2: "avail r2 = xs" and pe2: "pend r2 = pend r1"
    by blast
  have "readFile r = read_body rs bufs 8"
    using fs by (simp add: readFile_def buf0_def)
  with rb re tk1 tks have "readFile r =
       (if t = 0x1a then Inr (startSeq @ body @ escSeq @ [t, p, c1, c2])
        else Inl ErrUnrecognizedSequence, r2)"
    by simp
  with av2 pe2 pe1 pes that show thesis by simp
qed

lemma readFile_too_long:
  assumes "avail r = startSeq @ body @ xs"
    and "no_escape body" and "4 dvd length body" and "length body + 16 = maxFileSize"
  obtains r' where "readFile r = (Inl ErrSequenceTooLong, r')"
    and "avail r' = xs" and "pend r' = pend r"
proof -
  define buf0 :: "byte list" where "buf0 = replicate maxFileSize 0"
  have l0: "length buf0 = maxFileSize" by (simp add: buf0_def)
  from find_start_found [of r 0 "body @ xs" buf0] assms(1) l0
  obtain bufs rs where fs: "find_start r buf0 0 = (None, bufs, 8, rs)"
    and tks: "take 8 bufs = startSeq" and ls: "length bufs = maxFileSize"
    and avs: "avail rs = body @ xs" and pes: "pend rs = pend r"
    by auto
  have b1: "8 + length body + 8 \<le> maxFileSize" using assms(4) by simp
  from read_body_chunks [OF assms(2,3) b1 ls avs]
  obtain r1 buf1 where rb: "read_body rs bufs 8 = read_body r1 buf1 (8 + length body)"
    and av1: "avail r1 = xs" and pe1: "pend r1 = pend rs"
    by blast
  have "\<not> (8 + length body) + 8 < maxFileSize" using assms(4) by simp
  then have "read_body r1 buf1 (8 + length body) = (Inl ErrSequenceTooLong, r1)"
    by (simp add: read_body.simps [of r1 buf1 "8 + length body"])
  moreover have "readFile r = read_body rs bufs 8"
    using fs by (simp add: readFile_def buf0_def)
  ultimately have "readFile r = (Inl ErrSequenceTooLong, r1)" using rb by simp
  with av1 pe1 pes that show thesis by simp
qed

lemma read_body_unfold_esc:
  assumes "len + 8 < maxFileSize"
    and "readChunk r (slice buf len (len + 4)) = (chunk, None, r1)"
    and "slice (store buf len chunk) len (len + 4) = escSeq"
    and "readChunk r1 (slice (store buf len chunk) (len + 4) (len + 4 + 4)) = (chunk2, e2, r2)"
  shows "read_body r buf len =
     (case e2 of
        Some err \<Rightarrow> (Inl err, r2)
      | None \<Rightarrow>
          if store (store buf len chunk) (len + 4) chunk2 ! (len + 4) = 0x1a
          then (Inr (take (len + 4 + 4) (store (store buf len chunk) (len + 4) chunk2)), r2)
          else (Inl ErrUnrecognizedSequence, r2))"
  using assms by (simp add: read_body.simps [of r buf len] Let_def split: option.split)

lemma read_body_TooLong_only:
  assumes "read_body r buf len = (Inl ErrSequenceTooLong, r')"
    and "pend r \<noteq> ErrSequenceTooLong" and "4 dvd len" and "len + 8 \<le> maxFileSize"
    and "length buf = maxFileSize"
  shows "\<exists>body. avail r = body @ avail r' \<and> len + length body + 8 = maxFileSize
           \<and> no_escape body \<and> 4 dvd length body"
  using assms
proof (induction r buf len rule: read_body.induct)
  case (1 r buf len)
  show ?case
  proof (cases "len + 8 < maxFileSize")
    case False
    with "1.prems"(1) have "r' = r" by (simp add: read_body.simps [of r buf len])
    moreover from False "1.prems"(4) have "len + 8 = maxFileSize" by simp
    ultimately show ?thesis by simp
  next
    case True
    define dest where "dest = slice buf len (len + 4)"
    have ld: "length dest = 4" using True "1.prems"(5) by (simp add: dest_def slice_length)
    obtain chunk e1 r1 where rc: "readChunk r dest = (chunk, e1, r1)"
      by (cases "readChunk r dest") auto
    note spec1 = readChunk_spec [OF rc, unfolded ld]
    show ?thesis
    proof (cases "4 \<le> length (avail r)")
      case False
      with spec1 "1.prems"(2) have "e1 \<noteq> None" "e1 \<noteq> Some ErrSequenceTooLong" by auto
      with "1.prems"(1) True rc show ?thesis
        by (auto simp: read_body.simps [of r buf len] dest_def)
    next
      case enough: True
      with spec1 have e1: "e1 = None" and ch: "chunk = take 4 (avail r)"
        and av1: "avail r1 = drop 4 (avail r)" and pe1: "pend r1 = pend r"
        by simp_all
      have lc: "length chunk = 4" using enough ch by simp
      define buf1 where "buf1 = store buf len chunk"
      have l1: "length buf1 = maxFileSize"
        using True "1.prems"(5) lc by (simp add: buf1_def store_length4)
      have sl: "slice buf1 len (len + 4) = chunk"
        using True "1.prems"(5) lc by (simp add: buf1_def slice_store4)
      show ?thesis
      proof (cases "chunk = escSeq")
        case esc: True
        define dest2 where "dest2 = slice buf1 (len + 4) (len + 4 + 4)"
        have ld2: "length dest2 = 4" using True l1 by (simp add: dest2_def slice_length)
        obtain chunk2 e2 r2 where rc2: "readChunk r1 dest2 = (chunk2, e2, r2)"
          by (cases "readChunk r1 dest2") auto
        note spec2 = readChunk_spec [OF rc2, unfolded ld2]
        have "e2 \<noteq> Some ErrSequenceTooLong"
          using spec2 "1.prems"(2) pe1 by (auto split: if_splits)
        moreover note read_body_unfold_esc [OF True rc [unfolded dest_def e1]
            trans [OF sl [unfolded buf1_def] esc] rc2 [unfolded dest2_def buf1_def]]
        ultimately show ?thesis
          using "1.prems"(1) by (auto split: option.splits if_splits)
      next
        case noesc: False
        from "1.prems"(1) True rc e1 sl noesc
        have rec: "read_body r1 buf1 (len + 4) = (Inl ErrSequenceTooLong, r')"
          by (simp add: read_body.simps [of r buf len] dest_def [symmetric] buf1_def [symmetric]
                Let_def)
        have p2: "pend r1 \<noteq> ErrSequenceTooLong" using pe1 "1.prems"(2) by simp
        have d4: "4 dvd len + 4" using "1.prems"(3) by simp
        have bound: "len + 4 + 8 \<le> maxFileSize"
          using True "1.prems"(3) by (simp add: maxFileSize_def) presburger
        from "1.IH" [OF True rc [unfolded dest_def, symmetric] refl e1 buf1_def _ rec p2 d4 bound l1]
          sl noesc
        obtain body' where b': "avail r1 = body' @ avail r'"
          "len + 4 + length body' + 8 = maxFileSize" "no_escape body'" "4 dvd length body'"
          by auto
        have "avail r = chunk @ body' @ avail r'"
          using ch av1 b'(1) by (metis append_take_drop_id)
        moreover have "len + length (chunk @ body') + 8 = maxFileSize"
          using b'(2) lc by simp
        moreover have "no_escape (chunk @ body')"
          using no_escape_chunk [OF lc] noesc b'(3) by simp
        moreover have "4 dvd length (chunk @ body')"
          using b'(4) lc by simp
        ultimately show ?thesis by (intro exI [of _ "chunk @ body'"]) simp
      qed
    qed
  qed
qed

section \<open>What a dispatch fires\<close>

lemma call_Nil: "call oc [] = (callbacks oc, None)"
  by (simp add: call.simps)

lemma call_Cons:
  "call oc (b # bs) =
     (case childGroups oc b of
        None \<Rightarrow> (callbacks oc, None)
      | Some subOc \<Rightarrow> (callbacks oc @ fst (call subOc bs), snd (call subOc bs)))"
  by (subst call.simps) (simp add: index_def split: option.split prod.split)

lemma call_no_panic: "snd (call oc obisCode) = None"
proof (induction obisCode arbitrary: oc)
  case Nil
  show ?case by (simp add: call_Nil)
next
  case (Cons b bs)
  show ?case by (simp add: call_Cons Cons.IH split: option.split)
qed

lemma concat_map_Nil: "concat (map (\<lambda>_. []) xs) = []"
  by (induction xs) auto

lemma call_fires_path: "fst (call oc obisCode) = concat (map (stored_at oc) (prefixes obisCode))"
proof (induction obisCode arbitrary: oc)
  case Nil
  show ?case by (cases oc) (simp add: call_Nil)
next
  case (Cons b bs)
  obtain cbs ch where oc: "oc = Group cbs ch" by (cases oc)
  show ?case
  proof (cases "ch b")
    case None
    then show ?thesis by (simp add: oc call_Cons comp_def concat_map_Nil)
  next
    case (Some g)
    then show ?thesis by (simp add: oc call_Cons comp_def Cons.IH)
  qed
qed

lemma stored_at_new: "stored_at newObisGroupCallback p = []"
  by (cases p) (simp_all add: newObisGroupCallback_def)

lemma stored_at_addCallback:
  "stored_at (addCallback t c cb) p = (if p = c then stored_at t p @ [cb] else stored_at t p)"
proof (induction t c cb arbitrary: p rule: addCallback.induct)
  case (1 cbs ch cb)
  show ?case by (cases p) simp_all
next
  case (2 cbs ch b subCode cb)
  show ?case
  proof (cases p)
    case Nil
    then show ?thesis by (simp add: Let_def)
  next
    case (Cons x q)
    then show ?thesis
      using "2.IH" [of "case ch b of None \<Rightarrow> newObisGroupCallback | Some g \<Rightarrow> g" q]
      by (auto simp: Let_def stored_at_new split: option.splits)
  qed
qed

lemma stored_at_register_all: "stored_at (register_all regs) p = registered_at regs p"
proof (induction regs rule: rev_induct)
  case Nil
  show ?case by (simp add: register_all_def registered_at_def stored_at_new)
next
  case (snoc r regs)
  obtain c cb where r: "r = (c, cb)" by (cases r)
  have "register_all (regs @ [r]) = addCallback (register_all regs) c cb"
    by (simp add: register_all_def r)
  then show ?case
    using snoc.IH by (auto simp: stored_at_addCallback registered_at_def r)
qed

lemma call_register_all:
  "fst (call (register_all regs) obisCode) =
     concat (map (registered_at regs) (prefixes obisCode))"
  by (simp add: call_fires_path stored_at_register_all cong: map_cong)

lemma mset_filter_disjoint:
  assumes "\<And>x. \<not> (P x \<and> Q x)"
  shows "mset (map f (filter P xs)) + mset (map f (filter Q xs)) =
         mset (map f (filter (\<lambda>x. P x \<or> Q x) xs))"
  using assms by (induction xs) auto

lemma mset_registered_at_paths:
  "distinct ps \<Longrightarrow>
   mset (concat (map (registered_at regs) ps)) =
   mset (map snd (filter (\<lambda>r. fst r \<in> set ps) regs))"
proof (induction ps)
  case Nil
  show ?case by simp
next
  case (Cons p ps)
  have disj: "\<And>r::'b ReadOption. \<not> (fst r = p \<and> fst r \<in> set ps)"
    using Cons.prems by auto
  have ih: "mset (concat (map (registered_at regs) ps)) =
            mset (map snd (filter (\<lambda>r. fst r \<in> set ps) regs))"
    using Cons by simp
  have "mset (concat (map (registered_at regs) (p # ps))) =
        mset (registered_at regs p) + mset (concat (map (registered_at regs) ps))"
    by simp
  also have "\<dots> = mset (map snd (filter (\<lambda>r. fst r = p) regs)) +
        mset (map snd (filter (\<lambda>r. fst r \<in> set ps) regs))"
    unfolding ih registered_at_def ..
  also have "\<dots> = mset (map snd (filter (\<lambda>r. fst r = p \<or> fst r \<in> set ps) regs))"
    by (rule mset_filter_disjoint) (rule disj)
  also have "\<dots> = mset (map snd (filter (\<lambda>r. fst r \<in> set (p # ps)) regs))"
    by (simp del: mset_map mset_filter)
  finally show ?case .
qed

section \<open>The driver loop, frame by frame\<close>

lemma dispatch_entries_eq:
  "dispatch_entries t es =
     (concat (map (\<lambda>e. map (\<lambda>cb. (cb, e)) (fst (call t (ObjName e))))
        (filter (\<lambda>e. 0 < length (ObjName e)) es)), None)"
proof (induction es)
  case Nil
  show ?case by simp
next
  case (Cons e es)
  obtain fired p where c: "call t (ObjName e) = (fired, p)" by (cases "call t (ObjName e)")
  with call_no_panic [of t "ObjName e"] have "p = None" by simp
  with c Cons show ?case by simp
qed

lemma dispatch_messages_None: "dispatch_messages None msgs = ([], None)"
  by (induction msgs) simp_all

lemma dispatch_messages_Some:
  "dispatch_messages (Some t) msgs =
     (concat (map (\<lambda>m. concat (map (\<lambda>e. map (\<lambda>cb. (cb, e)) (fst (call t (ObjName e))))
        (dispatched_entries m))) msgs), None)"
proof (induction msgs)
  case Nil
  show ?case by simp
next
  case (Cons m msgs)
  show ?case
  proof (cases "Tag (MessageBody m) = MESSAGE_GET_LIST_RESPONSE")
    case False
    with Cons show ?thesis by (simp add: dispatched_entries_def)
  next
    case True
    show ?thesis
    proof (cases "Data (MessageBody m)")
      case OtherData
      with True Cons show ?thesis by (simp add: dispatched_entries_def)
    next
      case (GetListResponseData list)
      with True Cons show ?thesis
        by (simp add: dispatched_entries_def dispatch_entries_eq)
    qed
  qed
qed

lemma dispatch_messages_no_panic: "snd (dispatch_messages options msgs) = None"
  by (cases options) (simp_all add: dispatch_messages_None dispatch_messages_Some)

lemma foldl_WithObisCallback:
  "foldl (\<lambda>os opt. WithObisCallback opt os) (Some t) regs =
     Some (foldl (\<lambda>t (c, cb). addCallback t c cb) t regs)"
  by (induction regs arbitrary: t) (auto simp: WithObisCallback_def)

lemma apply_opts_eq:
  "apply_opts regs = (if regs = [] then None else Some (register_all regs))"
proof (cases regs)
  case Nil
  then show ?thesis by (simp add: apply_opts_def)
next
  case (Cons r rs)
  obtain c cb where r: "r = (c, cb)" by (cases r)
  have first: "WithObisCallback r None = Some (addCallback newObisGroupCallback c cb)"
    by (simp add: WithObisCallback_def r)
  have "apply_opts (r # rs) =
        foldl (\<lambda>os opt. WithObisCallback opt os) (WithObisCallback r None) rs"
    by (simp add: apply_opts_def)
  also have "\<dots> = Some (foldl (\<lambda>t (c, cb). addCallback t c cb)
                         (addCallback newObisGroupCallback c cb) rs)"
    unfolding first by (rule foldl_WithObisCallback)
  also have "\<dots> = Some (register_all (r # rs))"
    by (simp add: register_all_def r)
  finally show ?thesis by (simp add: Cons)
qed

lemma fired_for_eta:
  "fired_for regs =
     (\<lambda>e. map (\<lambda>cb. (cb, e)) (concat (map (registered_at regs) (prefixes (ObjName e)))))"
  by (rule ext) (simp add: fired_for_def)

lemma fired_for_Nil: "fired_for [] e = []"
  by (simp add: fired_for_def registered_at_def concat_map_Nil)

lemma dispatch_messages_apply_opts:
  "dispatch_messages (apply_opts regs) msgs =
     (concat (map (\<lambda>m. concat (map (fired_for regs) (dispatched_entries m))) msgs), None)"
proof (cases "regs = []")
  case True
  then show ?thesis
    by (simp add: apply_opts_eq dispatch_messages_None fired_for_Nil concat_map_Nil)
next
  case False
  then show ?thesis
    by (simp add: apply_opts_eq dispatch_messages_Some fired_for_eta call_register_all)
qed

lemma Read_loop_parse_failed:
  assumes "readFile r = (Inr fileBytes, r')" and "snd (try_parse mp fileBytes) \<noteq> None"
  shows "Read_loop mp options r = Read_loop mp options r'"
proof -
  obtain msgs e where "try_parse mp fileBytes = (msgs, Some e)"
    using assms(2) by (cases "try_parse mp fileBytes") auto
  with assms(1) show ?thesis by (simp add: Read_loop.simps [of mp options r])
qed

lemma Read_loop_parsed:
  assumes "readFile r = (Inr fileBytes, r')" and "try_parse mp fileBytes = (msgs, None)"
  shows "Read_loop mp options r =
     (fst (Read_loop mp options r'),
      fst (dispatch_messages options msgs) @ snd (Read_loop mp options r'))"
proof -
  obtain fired p where d: "dispatch_messages options msgs = (fired, p)"
    by (cases "dispatch_messages options msgs")
  with dispatch_messages_no_panic [of options msgs] have "p = None" by simp
  with assms d show ?thesis
    by (simp add: Read_loop.simps [of mp options r] split: prod.split)
qed

lemma Read_loop_skipped:
  assumes "readFile r = (Inl err, r')"
    and "err = ErrSequenceTooLong \<or> err = ErrUnrecognizedSequence"
  shows "Read_loop mp options r = Read_loop mp options r'"
  using assms by (auto simp: Read_loop.simps [of mp options r])

lemma Read_loop_failed:
  assumes "readFile r = (Inl err, r')"
    and "err \<noteq> ErrSequenceTooLong" and "err \<noteq> ErrUnrecognizedSequence"
  shows "Read_loop mp options r = (Return (if err = EOF then None else Some err), [])"
  using assms by (auto simp: Read_loop.simps [of mp options r])

section \<open>Frames and sample streams\<close>

lemma src_data_chunk_of: "src_data (chunk_of xs) = xs"
  by (cases xs) simp_all

lemma src_pend_chunk_of: "src_pend (chunk_of xs) = EOF"
  by (cases xs) simp_all

lemma src_data_one_byte_source: "src_data (one_byte_source bs) = bs"
  by (induction bs) (simp_all add: one_byte_source_def)

lemma avail_NewReaderSize: "avail (NewReaderSize s sz) = src_data s"
  by (simp add: avail_def NewReaderSize_def)

lemma pend_NewReaderSize: "pend (NewReaderSize s sz) = src_pend s"
  by (simp add: pend_def NewReaderSize_def)

lemma avail_NewReader_chunk_of: "avail (NewReader (chunk_of xs)) = xs"
  by (simp add: NewReader_def avail_NewReaderSize src_data_chunk_of)

lemma pend_NewReader_chunk_of: "pend (NewReader (chunk_of xs)) = EOF"
  by (simp add: NewReader_def pend_NewReaderSize src_pend_chunk_of)

lemma no_escape_without_1b: "0x1b \<notin> set body \<Longrightarrow> no_escape body"
  by (induction body rule: no_escape.induct) (auto simp: escSeq_def)

lemma frame_of_payload:
  "slice (frame_of body p c1 c2) 8 (length (frame_of body p c1 c2) - 8) = body"
  by (simp add: slice_def frame_of_def startSeq_def endSeq_def)

lemma frame_of_build: "buildSMLFrame payload = frame_of payload 0 0 0"
  by (simp add: buildSMLFrame_def frame_of_def)

lemma readFile_frame_of:
  assumes "avail r = frame_of body p c1 c2 @ xs" and "body_ok body"
  obtains r' where "readFile r = (Inr (frame_of body p c1 c2), r')"
    and "avail r' = xs" and "pend r' = pend r"
proof -
  have av: "avail r = startSeq @ body @ escSeq @ [0x1a, p, c1, c2] @ xs"
    using assms(1) by (simp add: frame_of_def endSeq_def escSeq_def)
  from assms(2) have "no_escape body" "4 dvd length body" "length body + 16 < maxFileSize"
    by (simp_all add: body_ok_def)
  from readFile_frame [OF av this] obtain r' where
    "readFile r = (if (0x1a::byte) = 0x1a then Inr (startSeq @ body @ escSeq @ [0x1a, p, c1, c2])
        else Inl ErrUnrecognizedSequence, r')" "avail r' = xs" "pend r' = pend r"
    by blast
  then show thesis
    using that by (simp add: frame_of_def endSeq_def escSeq_def)
qed

lemma ObjectName_short: "length (ObjName le) < 6 \<Longrightarrow> ObjectName le = Inl IndexOutOfRange"
  by (auto simp: ObjectName_def index_def split: sum.splits)

lemma ObjectName_long: "6 \<le> length (ObjName le) \<Longrightarrow> \<exists>s. ObjectName le = Inr s"
  by (auto simp: ObjectName_def index_def)

lemma Read_loop_outcome:
  "\<exists>e. fst (Read_loop mp options r) = Return e \<and> e \<noteq> Some EOF
       \<and> e \<noteq> Some ErrSequenceTooLong \<and> e \<noteq> Some ErrUnrecognizedSequence"
proof (induction mp options r rule: Read_loop.induct)
  case (1 mp options r)
  obtain res r' where rf: "readFile r = (res, r')" by (cases "readFile r")
  show ?case
  proof (cases res)
    case (Inl err)
    show ?thesis
    proof (cases "err = ErrSequenceTooLong \<or> err = ErrUnrecognizedSequence")
      case True
      then have "err \<noteq> EOF" by auto
      from "1.IH"(1) [OF rf [symmetric] Inl this True]
        Read_loop_skipped [OF rf [unfolded Inl] True, where mp = mp and options = options]
      show ?thesis by simp
    next
      case False
      then show ?thesis
        using Read_loop_failed [OF rf [unfolded Inl], where mp = mp and options = options] by auto
    qed
  next
    case (Inr fb)
    obtain msgs pe where tp: "try_parse mp fb = (msgs, pe)" by (cases "try_parse mp fb")
    show ?thesis
    proof (cases pe)
      case (Some parseErr)
      from "1.IH"(3) [OF rf [symmetric] Inr tp [symmetric] Some]
        Read_loop_parse_failed [OF rf [unfolded Inr], where mp = mp and options = options] tp Some
      show ?thesis by simp
    next
      case None
      obtain fired p where d: "dispatch_messages options msgs = (fired, p)"
        by (cases "dispatch_messages options msgs")
      with dispatch_messages_no_panic [of options msgs] have p: "p = None" by simp
      from "1.IH"(2) [OF rf [symmetric] Inr tp [symmetric] None d [symmetric] p]
        Read_loop_parsed [OF rf [unfolded Inr] tp [unfolded None], where options = options]
      show ?thesis by simp
    qed
  qed
qed

lemma try_parse_fails:
  "parse_fails mp (slice fileBytes 8 (length fileBytes - 8)) \<Longrightarrow>
   snd (try_parse mp fileBytes) \<noteq> None"
  by (auto simp: try_parse_def parse_fails_def split: sum.splits prod.splits)

lemma length_frame_of: "length (frame_of body p c1 c2) = length body + 16"
  by (simp add: frame_of_def startSeq_def endSeq_def)

lemma try_parse_frame_of:
  "parseFile mp body = Inr (msgs, err) \<Longrightarrow> try_parse mp (frame_of body p c1 c2) = (msgs, err)"
  using frame_of_payload [of body p c1 c2]
  by (simp add: try_parse_def length_frame_of)

lemma Reader_ReadByte_empty:
  assumes "avail r = []"
  obtains r' where "Reader_ReadByte r = (Inl (pend r), r')"
proof -
  obtain res r' where rb: "Reader_ReadByte r = (res, r')" by (cases "Reader_ReadByte r")
  show thesis
  proof (cases res)
    case (Inl err)
    from Reader_ReadByte_Inl(2) [OF rb [unfolded Inl]] rb Inl that show ?thesis by simp
  next
    case (Inr c)
    from Reader_ReadByte_Inr(1) [OF rb [unfolded Inr]] assms show ?thesis by simp
  qed
qed

lemma readFile_empty:
  assumes "avail r = []"
  obtains r' where "readFile r = (Inl (pend r), r')"
proof -
  from Reader_ReadByte_empty [OF assms] obtain r' where
    "Reader_ReadByte r = (Inl (pend r), r')" by blast
  then have "readFile r = (Inl (pend r), r')"
    by (simp add: readFile_def find_start.simps [of r _ 0])
  with that show thesis by blast
qed

lemma Read_loop_exhausted:
  assumes "avail r = []" and "pend r = EOF"
  shows "Read_loop mp options r = (Return None, [])"
proof -
  from readFile_empty [OF assms(1)] obtain r' where "readFile r = (Inl EOF, r')"
    using assms(2) by auto
  from Read_loop_failed [OF this] show ?thesis by simp
qed


lemma parseFile_loop_prefix:
  "parseFile_loop mp buf messages = Inr (msgs, e) \<Longrightarrow> prefix messages msgs"
proof (induction mp buf messages rule: parseFile_loop.induct)
  case (1 mp buf messages)
  show ?case
  proof (cases "Cursor buf < length (Bytes buf)")
    case False
    with "1.prems" show ?thesis by (simp add: parseFile_loop.simps [of mp buf messages])
  next
    case True
    then have cur: "GetCurrentByte buf = Inr (Bytes buf ! Cursor buf)"
      by (simp add: GetCurrentByte_def index_def)
    show ?thesis
    proof (cases "Bytes buf ! Cursor buf = OCTET_MESSAGE_END")
      case zero: True
      with "1.prems" True cur
      have "parseFile_loop mp (UpdateBytesRead buf 1) messages = Inr (msgs, e)"
        by (simp add: parseFile_loop.simps [of mp buf messages])
      from "1.IH"(1) [OF True cur zero this] show ?thesis .
    next
      case nz: False
      show ?thesis
      proof (cases "mp buf")
        case MPanic
        with "1.prems" True cur nz show ?thesis
          by (simp add: parseFile_loop.simps [of mp buf messages])
      next
        case (MErr err)
        with "1.prems" True cur nz show ?thesis
          by (simp add: parseFile_loop.simps [of mp buf messages])
      next
        case (MOk msg k)
        with "1.prems" True cur nz
        have "parseFile_loop mp (UpdateBytesRead buf (Suc k)) (messages @ [msg]) = Inr (msgs, e)"
          by (simp add: parseFile_loop.simps [of mp buf messages])
        from "1.IH"(2) [OF True cur nz MOk this] show ?thesis
          by (rule append_prefixD)
      qed
    qed
  qed
qed

section \<open>Properties of the dispatch tree\<close>

text \<open>C4. After any sequence of registrations, dispatching an observed code fires each
  registered callback once for every registration of it whose code is a prefix of the
  observed code, and fires nothing else; the empty code is a prefix of every code. With
  \<open>{1,0,1,8,0}\<close> and \<open>{1,0,2,8,0}\<close> registered, dispatching \<open>{1,0,2,8,0,255}\<close> fires the
  second callback only.\<close>

theorem call_fires_iff_prefix:
  "mset (fst (call (register_all regs) obisCode)) =
     mset (map snd (filter (\<lambda>r. prefix (fst r) obisCode) regs))
   \<and> call (register_all [([1, 0, 1, 8, 0], ca), ([1, 0, 2, 8, 0], cb)]) [1, 0, 2, 8, 0, 255]
       = ([cb], None)"
proof
  have "mset (fst (call (register_all regs) obisCode)) =
        mset (map snd (filter (\<lambda>r. fst r \<in> set (prefixes obisCode)) regs))"
    unfolding call_register_all by (rule mset_registered_at_paths) (rule distinct_prefixes)
  then show "mset (fst (call (register_all regs) obisCode)) =
        mset (map snd (filter (\<lambda>r. prefix (fst r) obisCode) regs))"
    by (simp only: in_set_prefixes)
  show "call (register_all [([1, 0, 1, 8, 0], ca), ([1, 0, 2, 8, 0], cb)]) [1, 0, 2, 8, 0, 255]
        = ([cb], None)"
    by (simp add: register_all_def newObisGroupCallback_def call_Cons call_Nil)
qed

theorem call_fires_iff_prefix_witness:
  "mset (fst (call (register_all [([], ''all''), ([1, 0, 1], ''import''), ([1, 0, 2], ''export'')])
                [1, 0, 1, 8, 0, 255]))
   = {#''all'', ''import''#}"
  using call_fires_iff_prefix
    [of "[([], ''all''), ([1, 0, 1], ''import''), ([1, 0, 2], ''export'')]"
        "[1, 0, 1, 8, 0, 255]" "''x''" "''y''"]
  by simp

text \<open>C5. Dispatching the empty OBIS code on any tree does not panic and fires exactly the
  callbacks stored at the root, which after any sequence of registrations are the ones
  registered under the empty code.\<close>

theorem call_empty_code:
  "call oc [] = (callbacks oc, None)
   \<and> call (register_all regs) [] = (registered_at regs [], None)"
proof
  show "call oc [] = (callbacks oc, None)"
    by (simp add: call.simps)
  have "fst (call (register_all regs) []) = registered_at regs []"
    by (simp add: call_register_all)
  moreover have "snd (call (register_all regs) []) = None"
    by (rule call_no_panic)
  ultimately show "call (register_all regs) [] = (registered_at regs [], None)"
    by (simp add: prod_eq_iff)
qed

theorem call_empty_code_witness:
  "call (register_all [([1, 0], ''deep''), ([], ''wild'')]) [] = ([''wild''], None)"
  using call_empty_code [of "register_all [([1, 0], ''deep''), ([], ''wild'')]"
      "[([1, 0], ''deep''), ([], ''wild'')]", THEN conjunct2]
  by (simp add: registered_at_def)

section \<open>Properties of the byte source and the frame extractor\<close>

text \<open>C8. Whenever \<open>readChunk\<close> returns no error, the destination holds exactly the next
  \<open>length buf\<close> bytes of the stream and the reader has moved past them; it returns an
  error only when the stream has fewer bytes left before it ends or fails. This holds for
  every way the source cuts the stream into reads: on a source that gives one byte to
  each read, \<open>readChunk\<close> returns all the bytes asked for as soon as the source has
  them.\<close>

theorem readChunk_fills_or_fails:
  "(readChunk r buf = (out, err, r') \<longrightarrow>
      (case err of
         None \<Rightarrow> out = take (length buf) (avail r) \<and> length out = length buf
                 \<and> avail r' = drop (length buf) (avail r)
       | Some e \<Rightarrow> length (avail r) < length buf))
   \<and> (length buf \<le> length bs \<longrightarrow>
        fst (readChunk (NewReaderSize (one_byte_source bs) sz) buf) = take (length buf) bs
        \<and> fst (snd (readChunk (NewReaderSize (one_byte_source bs) sz) buf)) = None)"
proof (intro conjI impI)
  assume rc: "readChunk r buf = (out, err, r')"
  show "case err of
         None \<Rightarrow> out = take (length buf) (avail r) \<and> length out = length buf
                 \<and> avail r' = drop (length buf) (avail r)
       | Some e \<Rightarrow> length (avail r) < length buf"
    using readChunk_spec [OF rc]
    by (cases "length buf \<le> length (avail r)") (auto split: option.splits)
next
  assume len: "length buf \<le> length bs"
  define r0 where "r0 = NewReaderSize (one_byte_source bs) sz"
  have av: "avail r0 = bs"
    by (simp add: r0_def avail_NewReaderSize src_data_one_byte_source)
  obtain out err r' where rc: "readChunk r0 buf = (out, err, r')" by (cases "readChunk r0 buf")
  from readChunk_spec [OF rc] len av have "err = None" "out = take (length buf) bs"
    by simp_all
  with rc show "fst (readChunk (NewReaderSize (one_byte_source bs) sz) buf) = take (length buf) bs"
    and "fst (snd (readChunk (NewReaderSize (one_byte_source bs) sz) buf)) = None"
    by (simp_all add: r0_def)
qed

theorem readChunk_fills_or_fails_witness:
  "readChunk (NewReaderSize (one_byte_source [0xAA, 0xBB, 0xCC, 0xDD, 0xEE]) 1) [0, 0, 0, 0]
     = ([0xAA, 0xBB, 0xCC, 0xDD], None, \<lparr>rbuf = [], rsize = 1, rd = [Chunk 0xEE []]\<rparr>)
   \<and> avail \<lparr>rbuf = [], rsize = 1, rd = [Chunk 0xEE []]\<rparr>
       = drop 4 (avail (NewReaderSize (one_byte_source [0xAA, 0xBB, 0xCC, 0xDD, 0xEE]) 1))
   \<and> fst (readChunk (NewReaderSize (one_byte_source [0xAA, 0xBB, 0xCC, 0xDD]) 1) [0, 0, 0, 0])
       = [0xAA, 0xBB, 0xCC, 0xDD]"
proof -
  have ev: "readChunk (NewReaderSize (one_byte_source [0xAA, 0xBB, 0xCC, 0xDD, 0xEE]) 1) [0, 0, 0, 0]
     = ([0xAA, 0xBB, 0xCC, 0xDD], None, \<lparr>rbuf = [], rsize = 1, rd = [Chunk 0xEE []]\<rparr>)"
    by code_simp
  from readChunk_fills_or_fails [THEN conjunct1, rule_format, OF ev]
  have "avail \<lparr>rbuf = [], rsize = 1, rd = [Chunk 0xEE []]\<rparr>
       = drop 4 (avail (NewReaderSize (one_byte_source [0xAA, 0xBB, 0xCC, 0xDD, 0xEE]) 1))"
    by (simp add: avail_NewReaderSize src_data_one_byte_source)
  moreover
  from readChunk_fills_or_fails [THEN conjunct2, rule_format,
      of "[0, 0, 0, 0]" "[0xAA, 0xBB, 0xCC, 0xDD]" 1]
  have "fst (readChunk (NewReaderSize (one_byte_source [0xAA, 0xBB, 0xCC, 0xDD]) 1) [0, 0, 0, 0])
       = [0xAA, 0xBB, 0xCC, 0xDD]"
    by simp
  ultimately show ?thesis using ev by simp
qed

text \<open>C3, as stated, fails: a file whose body has 496 bytes (512 bytes in all) is not
  returned but rejected with \<open>ErrSequenceTooLong\<close>, and a body that holds the escape
  sequence in one of its 4-byte chunks is rejected with \<open>ErrUnrecognizedSequence\<close>.\<close>

theorem readFile_wellformed_counterexample:
  "length (replicate 496 (0::byte)) mod 4 = 0
   \<and> length (replicate 496 (0::byte)) \<le> maxFileSize - 16
   \<and> fst (readFile (NewReader (chunk_of (buildSMLFrame (replicate 496 0)))))
       = Inl ErrSequenceTooLong
   \<and> fst (readFile (NewReader (chunk_of (buildSMLFrame [0x1b, 0x1b, 0x1b, 0x1b, 0, 0, 0, 0]))))
       = Inl ErrUnrecognizedSequence"
proof -
  define body :: "byte list" where "body = replicate 496 0"
  have av: "avail (NewReader (chunk_of (buildSMLFrame body)))
            = startSeq @ body @ (endSeq @ [0, 0, 0])"
    by (simp add: avail_NewReader_chunk_of buildSMLFrame_def)
  have "0x1b \<notin> set body" by (simp add: body_def)
  then have ne: "no_escape body" by (rule no_escape_without_1b)
  have dv: "4 dvd length body" by (simp add: body_def)
  have ln: "length body + 16 = maxFileSize" by (simp add: body_def maxFileSize_def)
  from readFile_too_long [OF av ne dv ln]
  have "fst (readFile (NewReader (chunk_of (buildSMLFrame body)))) = Inl ErrSequenceTooLong"
    by (metis fst_conv)
  moreover
  have "fst (readFile (NewReader (chunk_of (buildSMLFrame [0x1b, 0x1b, 0x1b, 0x1b, 0, 0, 0, 0]))))
       = Inl ErrUnrecognizedSequence"
    by code_simp
  ultimately show ?thesis by (simp add: body_def maxFileSize_def)
qed

text \<open>C3, amended. Let the stream start with START. If START is followed by a body whose
  length is a multiple of 4 and at most 492 bytes (the file has at most 508 bytes) and
  none of whose 4-byte chunks is the escape sequence, and then by END, \<open>readFile\<close>
  returns the whole file, START and END included, and leaves the reader behind it. And,
  when the source does not itself fail with \<open>ErrSequenceTooLong\<close>, \<open>readFile\<close> fails with
  \<open>ErrSequenceTooLong\<close> exactly when START is followed by 496 bytes, that is
  \<open>maxFileSize - 16\<close>, none of whose 4-byte chunks is the escape sequence.\<close>

theorem readFile_returns_frame:
  "(avail r = frame_of body p c1 c2 @ xs \<and> body_ok body \<longrightarrow>
      (\<exists>r'. readFile r = (Inr (frame_of body p c1 c2), r') \<and> avail r' = xs))
   \<and> (avail r = startSeq @ ys \<and> pend r \<noteq> ErrSequenceTooLong \<longrightarrow>
        (fst (readFile r) = Inl ErrSequenceTooLong)
        = (maxFileSize - 16 \<le> length ys \<and> no_escape (take (maxFileSize - 16) ys)))"
proof (intro conjI impI)
  assume "avail r = frame_of body p c1 c2 @ xs \<and> body_ok body"
  then have av: "avail r = frame_of body p c1 c2 @ xs" and ok: "body_ok body" by simp_all
  from readFile_frame_of [OF av ok]
  show "\<exists>r'. readFile r = (Inr (frame_of body p c1 c2), r') \<and> avail r' = xs" by blast
next
  assume "avail r = startSeq @ ys \<and> pend r \<noteq> ErrSequenceTooLong"
  then have av: "avail r = startSeq @ ys" and pe: "pend r \<noteq> ErrSequenceTooLong" by simp_all
  show "(fst (readFile r) = Inl ErrSequenceTooLong)
        = (maxFileSize - 16 \<le> length ys \<and> no_escape (take (maxFileSize - 16) ys))"
  proof
    assume tl: "fst (readFile r) = Inl ErrSequenceTooLong"
    then obtain r' where rf: "readFile r = (Inl ErrSequenceTooLong, r')"
      by (cases "readFile r") auto
    define buf0 :: "byte list" where "buf0 = replicate maxFileSize 0"
    have l0: "length buf0 = maxFileSize" by (simp add: buf0_def)
    from find_start_found [of r 0 ys buf0] av l0
    obtain bufs rs where fs: "find_start r buf0 0 = (None, bufs, 8, rs)"
      and tks: "take 8 bufs = startSeq" and ls: "length bufs = maxFileSize"
      and avs: "avail rs = ys" and pes: "pend rs = pend r"
      by auto
    from rf fs have rb: "read_body rs bufs 8 = (Inl ErrSequenceTooLong, r')"
      by (simp add: readFile_def buf0_def)
    have "\<exists>body. avail rs = body @ avail r' \<and> 8 + length body + 8 = maxFileSize
           \<and> no_escape body \<and> 4 dvd length body"
      by (rule read_body_TooLong_only [OF rb _ _ _ ls])
         (simp_all add: pes pe maxFileSize_def)
    then obtain body where b: "ys = body @ avail r'" "8 + length body + 8 = maxFileSize"
      "no_escape body"
      using avs by auto
    from b(2) have lb: "length body = maxFileSize - 16" by simp
    with b(1) have "take (maxFileSize - 16) ys = body" by simp
    with b(1,3) lb show "maxFileSize - 16 \<le> length ys \<and> no_escape (take (maxFileSize - 16) ys)"
      by simp
  next
    assume h: "maxFileSize - 16 \<le> length ys \<and> no_escape (take (maxFileSize - 16) ys)"
    define body where "body = take (maxFileSize - 16) ys"
    have lb: "length body = maxFileSize - 16" using h by (simp add: body_def)
    have av': "avail r = startSeq @ body @ drop (maxFileSize - 16) ys"
      using av by (simp add: body_def)
    have ne: "no_escape body" using h by (simp add: body_def)
    have dv: "4 dvd length body" by (simp add: lb maxFileSize_def)
    have ln: "length body + 16 = maxFileSize" by (simp add: lb maxFileSize_def)
    from readFile_too_long [OF av' ne dv ln]
    show "fst (readFile r) = Inl ErrSequenceTooLong" by (metis fst_conv)
  qed
qed

theorem readFile_returns_frame_witness:
  "body_ok [0, 0, 0, 0]
   \<and> (\<exists>r'. readFile (NewReader (chunk_of (frame_of [0, 0, 0, 0] 0 0 0 @ [7, 7])))
              = (Inr (frame_of [0, 0, 0, 0] 0 0 0), r') \<and> avail r' = [7, 7])
   \<and> fst (readFile (NewReader (chunk_of (startSeq @ [0, 0, 0, 0])))) \<noteq> Inl ErrSequenceTooLong"
proof -
  have ok: "body_ok [0, 0, 0, 0]"
    by code_simp
  have av: "avail (NewReader (chunk_of (frame_of [0, 0, 0, 0] 0 0 0 @ [7, 7])))
            = frame_of [0, 0, 0, 0] 0 0 0 @ [7, 7]"
    by (rule avail_NewReader_chunk_of)
  have av2: "avail (NewReader (chunk_of (startSeq @ [0, 0, 0, 0]))) = startSeq @ [0, 0, 0, 0]"
    by (rule avail_NewReader_chunk_of)
  have pe2: "pend (NewReader (chunk_of (startSeq @ [0, 0, 0, 0]))) \<noteq> ErrSequenceTooLong"
    by (simp add: pend_NewReader_chunk_of)
  from readFile_returns_frame [THEN conjunct1, rule_format, OF conjI [OF av ok]]
  have "\<exists>r'. readFile (NewReader (chunk_of (frame_of [0, 0, 0, 0] 0 0 0 @ [7, 7])))
              = (Inr (frame_of [0, 0, 0, 0] 0 0 0), r') \<and> avail r' = [7, 7]" .
  moreover
  from readFile_returns_frame [THEN conjunct2, rule_format, OF conjI [OF av2 pe2]]
  have "fst (readFile (NewReader (chunk_of (startSeq @ [0, 0, 0, 0])))) \<noteq> Inl ErrSequenceTooLong"
    by (simp add: maxFileSize_def)
  ultimately show ?thesis using ok by simp
qed

section \<open>Properties of the driver loop\<close>

text \<open>C1. For every reader, message parser and set of registrations: when \<open>readFile\<close>
  has extracted a frame and parsing its payload returns an error or panics, the panic is
  turned into an error value, and \<open>Read\<close> goes on exactly as it does from the reader
  left behind the frame, so the frame adds no callback and no error. In particular, on a
  stream that is a frame whose payload fails to parse followed by a frame whose payload
  parses, \<open>Read\<close> first makes all the invocations due to the messages of the second
  frame, and returns what it returns on the rest of the stream.\<close>

theorem Read_isolates_parse_faults:
  "(readFile r = (Inr fileBytes, r') \<and> parse_fails mp (slice fileBytes 8 (length fileBytes - 8))
      \<longrightarrow> snd (try_parse mp fileBytes) \<noteq> None
          \<and> Read_loop mp options r = Read_loop mp options r')
   \<and> (avail ra = frame_of bad p c1 c2 @ frame_of good q d1 d2 @ ys
        \<and> body_ok bad \<and> body_ok good
        \<and> parse_fails mp bad \<and> parseFile mp good = Inr (msgs, None)
      \<longrightarrow> (\<exists>rb. avail rb = ys \<and> pend rb = pend ra \<and>
             Read mp ra regs =
               (fst (Read mp rb regs),
                concat (map (\<lambda>m. concat (map (fired_for regs) (dispatched_entries m))) msgs)
                @ snd (Read mp rb regs))))"
proof (intro conjI impI)
  assume h: "readFile r = (Inr fileBytes, r')
             \<and> parse_fails mp (slice fileBytes 8 (length fileBytes - 8))"
  then have f: "snd (try_parse mp fileBytes) \<noteq> None" by (simp add: try_parse_fails)
  then show "snd (try_parse mp fileBytes) \<noteq> None" .
  from h f show "Read_loop mp options r = Read_loop mp options r'"
    by (simp add: Read_loop_parse_failed)
next
  assume h: "avail ra = frame_of bad p c1 c2 @ frame_of good q d1 d2 @ ys
        \<and> body_ok bad \<and> body_ok good
        \<and> parse_fails mp bad \<and> parseFile mp good = Inr (msgs, None)"
  then have av: "avail ra = frame_of bad p c1 c2 @ (frame_of good q d1 d2 @ ys)"
    and okb: "body_ok bad" and okg: "body_ok good" and pf: "parse_fails mp bad"
    and pg: "parseFile mp good = Inr (msgs, None)"
    by simp_all
  from readFile_frame_of [OF av okb] obtain r1 where
    rf1: "readFile ra = (Inr (frame_of bad p c1 c2), r1)"
    and av1: "avail r1 = frame_of good q d1 d2 @ ys" and pe1: "pend r1 = pend ra"
    by blast
  from readFile_frame_of [OF av1 okg] obtain rb where
    rf2: "readFile r1 = (Inr (frame_of good q d1 d2), rb)"
    and av2: "avail rb = ys" and pe2: "pend rb = pend r1"
    by blast
  have "snd (try_parse mp (frame_of bad p c1 c2)) \<noteq> None"
    using pf by (intro try_parse_fails) (simp add: frame_of_payload)
  from Read_loop_parse_failed [OF rf1 this]
  have s1: "Read_loop mp (apply_opts regs) ra = Read_loop mp (apply_opts regs) r1" .
  from Read_loop_parsed [OF rf2 try_parse_frame_of [OF pg]]
  have s2: "Read_loop mp (apply_opts regs) r1 =
     (fst (Read_loop mp (apply_opts regs) rb),
      fst (dispatch_messages (apply_opts regs) msgs) @ snd (Read_loop mp (apply_opts regs) rb))" .
  have "Read mp ra regs =
               (fst (Read mp rb regs),
                concat (map (\<lambda>m. concat (map (fired_for regs) (dispatched_entries m))) msgs)
                @ snd (Read mp rb regs))"
    unfolding Read_def s1 s2 by (simp add: dispatch_messages_apply_opts)
  with av2 pe2 pe1 show "\<exists>rb. avail rb = ys \<and> pend rb = pend ra \<and>
             Read mp ra regs =
               (fst (Read mp rb regs),
                concat (map (\<lambda>m. concat (map (fired_for regs) (dispatched_entries m))) msgs)
                @ snd (Read mp rb regs))"
    by auto
qed

theorem Read_isolates_parse_faults_witness:
  "parse_fails sample_parser [0x76, 0xff, 0xff, 0xff]
   \<and> Read_loop sample_parser (apply_opts [([1], ''a''), ([], ''w'')])
        (NewReader (chunk_of (corrupt_frame @ valid_frame)))
     = Read_loop sample_parser (apply_opts [([1], ''a''), ([], ''w'')])
        \<lparr>rbuf = valid_frame, rsize = 4096, rd = []\<rparr>
   \<and> Read sample_parser (NewReader (chunk_of (corrupt_frame @ valid_frame)))
        [([1], ''a''), ([], ''w'')]
     = (Return None, [(''w'', entry_of [1, 0]), (''a'', entry_of [1, 0])])"
proof -
  let ?regs = "[([1], ''a''), ([], ''w'')] :: string ReadOption list"
  let ?r = "NewReader (chunk_of (corrupt_frame @ valid_frame))"
  have pf: "parse_fails sample_parser [0x76, 0xff, 0xff, 0xff]" by code_simp
  have rf: "readFile ?r = (Inr corrupt_frame, \<lparr>rbuf = valid_frame, rsize = 4096, rd = []\<rparr>)"
    by code_simp
  have pf': "parse_fails sample_parser (slice corrupt_frame 8 (length corrupt_frame - 8))"
    by code_simp
  from Read_isolates_parse_faults [THEN conjunct1, rule_format,
      where options = "apply_opts ?regs", OF conjI [OF rf pf']]
  have step: "Read_loop sample_parser (apply_opts ?regs) ?r
     = Read_loop sample_parser (apply_opts ?regs) \<lparr>rbuf = valid_frame, rsize = 4096, rd = []\<rparr>"
    by simp
  have av: "avail ?r = frame_of [0x76, 0xff, 0xff, 0xff] 0 0 0 @ frame_of [0x76, 2, 1, 0] 0 0 0 @ []"
    by (simp add: avail_NewReader_chunk_of corrupt_frame_def valid_frame_def frame_of_build)
  have ok1: "body_ok [0x76, 0xff, 0xff, 0xff]" by code_simp
  have ok2: "body_ok [0x76, 2, 1, 0]" by code_simp
  have pg: "parseFile sample_parser [0x76, 2, 1, 0] = Inr ([list_message [entry_of [1, 0]]], None)"
    by code_simp
  from Read_isolates_parse_faults [THEN conjunct2, rule_format, where regs = ?regs,
      OF conjI [OF av conjI [OF ok1 conjI [OF ok2 conjI [OF pf pg]]]]]
  obtain rb where rb: "avail rb = []" "pend rb = pend ?r"
    and rd: "Read sample_parser ?r ?regs =
      (fst (Read sample_parser rb ?regs),
       concat (map (\<lambda>m. concat (map (fired_for ?regs) (dispatched_entries m)))
                 [list_message [entry_of [1, 0]]])
       @ snd (Read sample_parser rb ?regs))"
    by blast
  have "pend rb = EOF" using rb(2) by (simp add: pend_NewReader_chunk_of)
  with rb(1) have "Read sample_parser rb ?regs = (Return None, [])"
    by (simp add: Read_def Read_loop_exhausted)
  moreover have "concat (map (\<lambda>m. concat (map (fired_for ?regs) (dispatched_entries m)))
                 [list_message [entry_of [1, 0]]])
     = [(''w'', entry_of [1, 0]), (''a'', entry_of [1, 0])]"
    by (simp add: dispatched_entries_def list_message_def entry_of_def fired_for_def
        registered_at_def)
  ultimately have "Read sample_parser ?r ?regs
     = (Return None, [(''w'', entry_of [1, 0]), (''a'', entry_of [1, 0])])"
    using rd by simp
  with pf step show ?thesis by simp
qed



text \<open>C9. \<open>ObjectName\<close>, and with it \<open>String\<close>, panics with an index out of range for every
  entry whose object name has fewer than 6 bytes, and returns a string for every other
  entry. \<open>Read\<close> dispatches every entry of a parsed GetListResponse whose object name is
  not empty, whatever its length: each callback registered under a prefix of the name is
  invoked with the entry.\<close>

theorem ObjectName_panics_on_short_names:
  "(length (ObjName le) < 6
      \<longrightarrow> ObjectName le = Inl IndexOutOfRange \<and> ListEntry_String vs le = Inl IndexOutOfRange)
   \<and> (6 \<le> length (ObjName le) \<longrightarrow> (\<exists>s. ObjectName le = Inr s))
   \<and> (readFile r = (Inr fileBytes, r') \<and> try_parse mp fileBytes = (msgs, None)
        \<and> msg \<in> set msgs \<and> Tag (MessageBody msg) = MESSAGE_GET_LIST_RESPONSE
        \<and> Data (MessageBody msg) = GetListResponseData list \<and> elem \<in> set (ValList list)
        \<and> 0 < length (ObjName elem) \<and> (c, cb) \<in> set regs \<and> prefix c (ObjName elem)
      \<longrightarrow> (cb, elem) \<in> set (snd (Read mp r regs)))"
proof (intro conjI impI)
  assume "length (ObjName le) < 6"
  then have "ObjectName le = Inl IndexOutOfRange" by (rule ObjectName_short)
  then show "ObjectName le = Inl IndexOutOfRange"
    and "ListEntry_String vs le = Inl IndexOutOfRange"
    by (simp_all add: ListEntry_String_def)
next
  assume "6 \<le> length (ObjName le)"
  then show "\<exists>s. ObjectName le = Inr s" by (rule ObjectName_long)
next
  assume h: "readFile r = (Inr fileBytes, r') \<and> try_parse mp fileBytes = (msgs, None)
        \<and> msg \<in> set msgs \<and> Tag (MessageBody msg) = MESSAGE_GET_LIST_RESPONSE
        \<and> Data (MessageBody msg) = GetListResponseData list \<and> elem \<in> set (ValList list)
        \<and> 0 < length (ObjName elem) \<and> (c, cb) \<in> set regs \<and> prefix c (ObjName elem)"
  then have rf: "readFile r = (Inr fileBytes, r')" and tp: "try_parse mp fileBytes = (msgs, None)"
    by simp_all
  from h have de: "elem \<in> set (dispatched_entries msg)"
    by (simp add: dispatched_entries_def)
  from h have "cb \<in> set (registered_at regs c)"
    by (force simp: registered_at_def)
  moreover from h have "c \<in> set (prefixes (ObjName elem))"
    by simp
  ultimately have "(cb, elem) \<in> set (fired_for regs elem)"
    unfolding fired_for_def by (auto simp: image_iff intro!: bexI [of _ c])
  with de have "(cb, elem) \<in> set (fst (dispatch_messages (apply_opts regs) msgs))"
    using h by (auto simp: dispatch_messages_apply_opts)
  then show "(cb, elem) \<in> set (snd (Read mp r regs))"
    unfolding Read_def Read_loop_parsed [OF rf tp] by simp
qed

theorem ObjectName_panics_on_short_names_witness:
  "ObjectName (entry_of [1, 0]) = Inl IndexOutOfRange
   \<and> ListEntry_String (\<lambda>_. '''') (entry_of [1, 0]) = Inl IndexOutOfRange
   \<and> ObjectName (entry_of [1, 0, 1, 8, 0, 255]) = Inr ''1-0:1.8.0*255''
   \<and> (''w'', entry_of [1, 0])
       \<in> set (snd (Read sample_parser (NewReader (chunk_of valid_frame)) [([], ''w'')]))"
proof -
  let ?r = "NewReader (chunk_of valid_frame)"
  have short: "length (ObjName (entry_of [1, 0])) < 6" by (simp add: entry_of_def)
  have long: "6 \<le> length (ObjName (entry_of [1, 0, 1, 8, 0, 255]))" by (simp add: entry_of_def)
  have name: "ObjectName (entry_of [1, 0, 1, 8, 0, 255]) = Inr ''1-0:1.8.0*255''" by code_simp
  have rf: "readFile ?r = (Inr valid_frame, \<lparr>rbuf = [], rsize = 4096, rd = []\<rparr>)" by code_simp
  have tp: "try_parse sample_parser valid_frame = ([list_message [entry_of [1, 0]]], None)"
    by code_simp
  have rest: "list_message [entry_of [1, 0]] \<in> set [list_message [entry_of [1, 0]]]
        \<and> Tag (MessageBody (list_message [entry_of [1, 0]])) = MESSAGE_GET_LIST_RESPONSE
        \<and> Data (MessageBody (list_message [entry_of [1, 0]]))
            = GetListResponseData \<lparr>ClientID = [], ServerID = [], ListName = [],
                ActSensorTime = 0, ValList = [entry_of [1, 0]], ListSignature = [],
                ActGatewayTime = 0\<rparr>
        \<and> entry_of [1, 0] \<in> set (ValList \<lparr>ClientID = [], ServerID = [], ListName = [],
                ActSensorTime = 0, ValList = [entry_of [1, 0]], ListSignature = [],
                ActGatewayTime = 0\<rparr>)
        \<and> 0 < length (ObjName (entry_of [1, 0])) \<and> ([], ''w'') \<in> set [([], ''w'')]
        \<and> prefix [] (ObjName (entry_of [1, 0]))"
    by (simp add: list_message_def entry_of_def)
  note main = ObjectName_panics_on_short_names
  from main [THEN conjunct1, rule_format, OF short]
  have "ObjectName (entry_of [1, 0]) = Inl IndexOutOfRange
        \<and> ListEntry_String (\<lambda>_. '''') (entry_of [1, 0]) = Inl IndexOutOfRange" .
  moreover from main [THEN conjunct2, THEN conjunct1, rule_format, OF long] name
  have "ObjectName (entry_of [1, 0, 1, 8, 0, 255]) = Inr ''1-0:1.8.0*255''" by simp
  moreover from main [THEN conjunct2, THEN conjunct2, rule_format,
      OF conjI [OF rf conjI [OF tp rest]]]
  have "(''w'', entry_of [1, 0])
       \<in> set (snd (Read sample_parser ?r [([], ''w'')]))" .
  ultimately show ?thesis by simp
qed

text \<open>C7. \<open>parseFile\<close> appends every message it parses behind those parsed before it, so
  the parsed list is in the order of the file. For a frame that parses, \<open>Read\<close> makes the
  invocations due to the frame before those due to the rest of the stream, and the
  invocations due to the frame are: message after message in the order of the parsed
  list; within a message, entry after entry in the order of the list, the entries with
  an empty object name left out; for one entry, prefix after prefix of its object name
  from the empty one (the root) to the longest; and for one prefix, the callbacks
  registered under it in the order of registration.\<close>

theorem Read_callback_order:
  "(parseFile_loop mp buf messages = Inr (parsed, e) \<longrightarrow> prefix messages parsed)
   \<and> (readFile r = (Inr fileBytes, r') \<and> try_parse mp fileBytes = (msgs, None) \<longrightarrow>
      snd (Read mp r regs) =
        concat (map (\<lambda>msg.
          concat (map (\<lambda>elem.
            concat (map (\<lambda>code. map (\<lambda>cb. (cb, elem)) (registered_at regs code))
              (prefixes (ObjName elem))))
            (dispatched_entries msg)))
          msgs)
        @ snd (Read mp r' regs))"
proof (intro conjI impI)
  assume "parseFile_loop mp buf messages = Inr (parsed, e)"
  then show "prefix messages parsed" by (rule parseFile_loop_prefix)
next
  assume h: "readFile r = (Inr fileBytes, r') \<and> try_parse mp fileBytes = (msgs, None)"
  then have rf: "readFile r = (Inr fileBytes, r')" and tp: "try_parse mp fileBytes = (msgs, None)"
    by simp_all
  have "fired_for regs =
     (\<lambda>elem. concat (map (\<lambda>code. map (\<lambda>cb. (cb, elem)) (registered_at regs code))
           (prefixes (ObjName elem))))"
    by (rule ext) (simp add: fired_for_def map_concat comp_def)
  then show "snd (Read mp r regs) =
     concat (map (\<lambda>msg.
       concat (map (\<lambda>elem.
         concat (map (\<lambda>code. map (\<lambda>cb. (cb, elem)) (registered_at regs code))
           (prefixes (ObjName elem))))
         (dispatched_entries msg)))
       msgs)
     @ snd (Read mp r' regs)"
    unfolding Read_def Read_loop_parsed [OF rf tp]
    by (simp add: dispatch_messages_apply_opts)
qed

theorem Read_callback_order_witness:
  "prefix [list_message [entry_of [1, 0]]]
     [list_message [entry_of [1, 0]], list_message [entry_of [1]]]
   \<and> snd (Read sample_parser (NewReader (chunk_of (buildSMLFrame [0x76, 2, 1, 0, 0x76, 1, 1, 0])))
          [([1], ''a''), ([], ''w''), ([1], ''b'')])
   = [(''w'', entry_of [1, 0]), (''a'', entry_of [1, 0]), (''b'', entry_of [1, 0]),
      (''w'', entry_of [1]), (''a'', entry_of [1]), (''b'', entry_of [1])]"
proof -
  let ?frame = "buildSMLFrame [0x76, 2, 1, 0, 0x76, 1, 1, 0]"
  let ?r' = "\<lparr>rbuf = [], rsize = 4096, rd = []\<rparr>"
  let ?regs = "[([1], ''a''), ([], ''w''), ([1], ''b'')] :: string ReadOption list"
  have pl: "parseFile_loop sample_parser \<lparr>Bytes = [0x76, 2, 1, 0, 0x76, 1, 1, 0], Cursor = 4\<rparr>
              [list_message [entry_of [1, 0]]]
            = Inr ([list_message [entry_of [1, 0]], list_message [entry_of [1]]], None)"
    by code_simp
  from Read_callback_order [THEN conjunct1, THEN mp, OF pl]
  have first: "prefix [list_message [entry_of [1, 0]]]
     [list_message [entry_of [1, 0]], list_message [entry_of [1]]]" .
  have rf: "readFile (NewReader (chunk_of ?frame)) = (Inr ?frame, ?r')" by code_simp
  have tp: "try_parse sample_parser ?frame
            = ([list_message [entry_of [1, 0]], list_message [entry_of [1]]], None)"
    by code_simp
  have rest: "Read sample_parser ?r' ?regs = (Return None, [])"
    by (simp add: Read_def Read_loop_exhausted avail_def pend_def)
  from Read_callback_order [where regs = ?regs, THEN conjunct2, THEN mp, OF conjI [OF rf tp]]
  have "snd (Read sample_parser (NewReader (chunk_of ?frame)) ?regs)
   = [(''w'', entry_of [1, 0]), (''a'', entry_of [1, 0]), (''b'', entry_of [1, 0]),
      (''w'', entry_of [1]), (''a'', entry_of [1]), (''b'', entry_of [1])]"
    by (simp add: rest dispatched_entries_def list_message_def entry_of_def registered_at_def)
  with first show ?thesis by simp
qed

text \<open>C2. A stream that ends inside a 4-byte chunk of a frame body makes \<open>Read\<close> return
  \<open>io.ErrUnexpectedEOF\<close>, although the source only reached its end; a stream that ends
  between two chunks of the body makes it return nil. This holds for every message
  parser and every set of registrations.\<close>

theorem Read_truncated_stream:
  "Read mp (NewReader (chunk_of (startSeq @ [0]))) opts = (Return (Some ErrUnexpectedEOF), [])
   \<and> Read mp (NewReader (chunk_of (startSeq @ [0, 0, 0, 0]))) opts = (Return None, [])"
proof
  have "readFile (NewReader (chunk_of (startSeq @ [0])))
        = (Inl ErrUnexpectedEOF, \<lparr>rbuf = [], rsize = 4096, rd = []\<rparr>)"
    by code_simp
  from Read_loop_failed [OF this]
  show "Read mp (NewReader (chunk_of (startSeq @ [0]))) opts = (Return (Some ErrUnexpectedEOF), [])"
    by (simp add: Read_def)
  have "readFile (NewReader (chunk_of (startSeq @ [0, 0, 0, 0])))
        = (Inl EOF, \<lparr>rbuf = [], rsize = 4096, rd = []\<rparr>)"
    by code_simp
  from Read_loop_failed [OF this]
  show "Read mp (NewReader (chunk_of (startSeq @ [0, 0, 0, 0]))) opts = (Return None, [])"
    by (simp add: Read_def)
qed

end
